theory Spec2Isabelle
  imports
    Main
    "HOL-Library.List_Lexorder"
    "HOL-Library.AList"
    "HOL-Library.Sublist"
    "HOL-Library.Multiset"
begin

section \<open>Inverted index with permuterm wildcard support\<close>

text \<open>
  A shallow embedding of \<^verbatim>\<open>assignment_2.py\<close> (inverted index, permuterm index, wildcard
  queries) and of the parts of \<^verbatim>\<open>assignment_1.py\<close> that differ from it (no permuterm
  index, no skipping of empty terms, a console print for a missing term).

  A Python \<^verbatim>\<open>str\<close> is a list of Unicode code points, each a natural number. Document
  identifiers are strings, compared as Python compares \<^verbatim>\<open>str\<close>: lexicographically by
  code point. A Python \<^verbatim>\<open>set\<close> of strings is a duplicate-free list; the order in which
  Python enumerates a set is not fixed by the language, so statements about such values
  are made on \<^term>\<open>set xs\<close> only.
\<close>

subsection \<open>Strings\<close>

type_synonym codepoint = nat

type_synonym pystr = "codepoint list"

text \<open>An ASCII literal as a Python string.\<close>

definition ustr :: "string \<Rightarrow> pystr" where
  "ustr s = map of_char s"

text \<open>The wildcard marker \<^verbatim>\<open>*\<close> and the sentinel \<^verbatim>\<open>$\<close>.\<close>

definition star :: codepoint where
  "star = 42"

definition dollar :: codepoint where
  "dollar = 36"

text \<open>
  Python's Unicode character database is not part of the repository. What the code uses
  of it is taken as a parameter: \<^verbatim>\<open>str.isalnum\<close> on one character, \<^verbatim>\<open>str.lower\<close> on a
  whole string (it may change the length), and the whitespace test of \<^verbatim>\<open>str.split()\<close>.
\<close>

record unicode_tables =
  isalnum :: "codepoint \<Rightarrow> bool"
  lower :: "pystr \<Rightarrow> pystr"
  isspace :: "codepoint \<Rightarrow> bool"

text \<open>
  The values of the tables of Python 3.11 on the code points below 256, for evaluating
  examples whose text stays in that range: the alphanumeric code points are the ASCII
  digits and letters, U+00AA, U+00B2, U+00B3, U+00B5, U+00B9, U+00BA, U+00BC to U+00BE,
  U+00C0 to U+00D6, U+00D8 to U+00F6 and U+00F8 to U+00FF; \<^verbatim>\<open>lower\<close> adds 32 to
  \<^verbatim>\<open>A\<close> to \<^verbatim>\<open>Z\<close> and to U+00C0 to U+00DE except U+00D7; whitespace is U+0009 to U+000D,
  U+001C to U+0020, U+0085 and U+00A0.
\<close>

definition latin1_isalnum :: "codepoint \<Rightarrow> bool" where
  "latin1_isalnum n =
     ((48 \<le> n \<and> n \<le> 57) \<or> (65 \<le> n \<and> n \<le> 90) \<or> (97 \<le> n \<and> n \<le> 122) \<or>
      n = 170 \<or> n = 178 \<or> n = 179 \<or> n = 181 \<or> n = 185 \<or> n = 186 \<or>
      (188 \<le> n \<and> n \<le> 190) \<or> (192 \<le> n \<and> n \<le> 214) \<or> (216 \<le> n \<and> n \<le> 246) \<or>
      (248 \<le> n \<and> n \<le> 255))"

definition latin1_lower_char :: "codepoint \<Rightarrow> codepoint" where
  "latin1_lower_char n =
     (if (65 \<le> n \<and> n \<le> 90) \<or> (192 \<le> n \<and> n \<le> 222 \<and> n \<noteq> 215) then n + 32 else n)"

definition latin1_isspace :: "codepoint \<Rightarrow> bool" where
  "latin1_isspace n = ((9 \<le> n \<and> n \<le> 13) \<or> (28 \<le> n \<and> n \<le> 32) \<or> n = 133 \<or> n = 160)"

definition latin1_tables :: unicode_tables where
  "latin1_tables =
     \<lparr>isalnum = latin1_isalnum, lower = map latin1_lower_char, isspace = latin1_isspace\<rparr>"

subsection \<open>Errors and postings\<close>

datatype py_error = IndexError | KeyError

text \<open>\<^verbatim>\<open>class Posting\<close>: a document id and a link to the next posting (\<^verbatim>\<open>None\<close> ends the chain).\<close>

datatype posting = Posting (document_id: pystr) (next_posting: "posting option")

text \<open>The document ids of a chain, walking from its head.\<close>

fun chain_ids :: "posting option \<Rightarrow> pystr list" where
  "chain_ids None = []"
| "chain_ids (Some (Posting d nxt)) = d # chain_ids nxt"

subsection \<open>Index state\<close>

text \<open>
  \<^verbatim>\<open>InvertedIndex.__init__\<close>. The dictionary maps a term to the triple
  (term, size, pointer); \<^verbatim>\<open>postings_lists\<close> maps a pointer to the head of its chain.
  The permuterm index of assignment 2 is an insertion-ordered dictionary from a rotation
  to the set of terms producing it.
\<close>

record index_state_a1 =
  dictionary :: "pystr \<rightharpoonup> (pystr \<times> nat \<times> nat)"
  postings_lists :: "nat \<rightharpoonup> posting option"
  posting_id_counter :: nat

record index_state = index_state_a1 +
  permuterm_index :: "(pystr \<times> pystr list) list"

definition init_a1 :: index_state_a1 where
  "init_a1 = \<lparr>dictionary = Map.empty, postings_lists = Map.empty, posting_id_counter = 0\<rparr>"

definition init :: index_state where
  "init = \<lparr>dictionary = Map.empty, postings_lists = Map.empty, posting_id_counter = 0,
            permuterm_index = []\<rparr>"

subsection \<open>Normalisation\<close>

text \<open>\<^verbatim>\<open>normalize(term, keep_wildcards=False)\<close>.\<close>

definition normalize :: "unicode_tables \<Rightarrow> pystr \<Rightarrow> bool \<Rightarrow> pystr" where
  "normalize U trm keep_wildcards =
     (let trm = lower U trm
      in if keep_wildcards then filter (\<lambda>c. isalnum U c \<or> c = star) trm
         else filter (isalnum U) trm)"

subsection \<open>Permuterm rotations\<close>

text \<open>\<^verbatim>\<open>generate_permuterms(term)\<close>: every rotation of \<^verbatim>\<open>term + '$'\<close>.\<close>

definition generate_permuterms :: "pystr \<Rightarrow> pystr list" where
  "generate_permuterms trm =
     (let trm = trm @ [dollar] in map (\<lambda>i. drop i trm @ take i trm) [0..<length trm])"

subsection \<open>Building the index\<close>

text \<open>
  Lines 81--84 of assignment 2: add the term to the set stored under one rotation, creating
  the set when the rotation is new (a new key goes to the end of the dictionary).
\<close>

definition register_permuterm ::
  "pystr \<Rightarrow> pystr \<Rightarrow> (pystr \<times> pystr list) list \<Rightarrow> (pystr \<times> pystr list) list" where
  "register_permuterm trm permuterm pidx =
     (case map_of pidx permuterm of
        Some ts \<Rightarrow> AList.update permuterm (List.insert trm ts) pidx
      | None \<Rightarrow> AList.update permuterm [trm] pidx)"

text \<open>Lines 78--84: the loop over the rotations of a term.\<close>

definition register_permuterms ::
  "pystr \<Rightarrow> (pystr \<times> pystr list) list \<Rightarrow> (pystr \<times> pystr list) list" where
  "register_permuterms trm pidx = fold (register_permuterm trm) (generate_permuterms trm) pidx"

text \<open>
  Lines 86--91 (assignment 1: 56--61): a term seen for the first time gets a fresh pointer,
  an empty chain and the entry (term, 0, pointer).
\<close>

definition ensure_term :: "'a index_state_a1_scheme \<Rightarrow> pystr \<Rightarrow> 'a index_state_a1_scheme" where
  "ensure_term st trm =
     (if dictionary st trm = None then
        (let pointer = posting_id_counter st
         in st\<lparr>postings_lists := (postings_lists st)(pointer \<mapsto> None),
               dictionary := (dictionary st)(trm \<mapsto> (trm, 0, pointer)),
               posting_id_counter := posting_id_counter st + 1\<rparr>)
      else st)"

text \<open>
  Lines 93--105 (assignment 1: 63--75): read the entry and the head of the chain (either
  subscript raises \<^verbatim>\<open>KeyError\<close> on a missing key), and push a new head unless the head
  already carries this document id.
\<close>

definition append_posting ::
  "'a index_state_a1_scheme \<Rightarrow> pystr \<Rightarrow> pystr \<Rightarrow> py_error + 'a index_state_a1_scheme" where
  "append_posting st trm tweet_id =
     (case dictionary st trm of
        None \<Rightarrow> Inl KeyError
      | Some term_data \<Rightarrow>
          (let pointer = snd (snd term_data) in
           case postings_lists st pointer of
             None \<Rightarrow> Inl KeyError
           | Some current_posting \<Rightarrow>
               if (case current_posting of None \<Rightarrow> True | Some p \<Rightarrow> document_id p \<noteq> tweet_id)
               then
                 (let new_posting = Posting tweet_id current_posting
                  in Inr (st\<lparr>postings_lists := (postings_lists st)(pointer \<mapsto> Some new_posting),
                            dictionary :=
                              (dictionary st)(trm \<mapsto> (trm, fst (snd term_data) + 1, pointer))\<rparr>))
               else Inr st))"

text \<open>The body of \<^verbatim>\<open>for term in tokens\<close> in assignment 2 (lines 75--105).\<close>

definition index_term :: "index_state \<Rightarrow> pystr \<Rightarrow> pystr \<Rightarrow> py_error + index_state" where
  "index_term st tweet_id trm =
     (if trm \<noteq> [] then
        append_posting
          (ensure_term (st\<lparr>permuterm_index := register_permuterms trm (permuterm_index st)\<rparr>) trm)
          trm tweet_id
      else Inr st)"

text \<open>The body of \<^verbatim>\<open>for term in tokens\<close> in assignment 1 (lines 56--75): no test for the empty term.\<close>

definition index_term_a1 :: "index_state_a1 \<Rightarrow> pystr \<Rightarrow> pystr \<Rightarrow> py_error + index_state_a1" where
  "index_term_a1 st tweet_id trm = append_posting (ensure_term st trm) trm tweet_id"

fun index_tokens :: "index_state \<Rightarrow> pystr \<Rightarrow> pystr list \<Rightarrow> py_error + index_state" where
  "index_tokens st tweet_id [] = Inr st"
| "index_tokens st tweet_id (trm # tokens) =
     (case index_term st tweet_id trm of
        Inl e \<Rightarrow> Inl e
      | Inr st' \<Rightarrow> index_tokens st' tweet_id tokens)"

fun index_tokens_a1 :: "index_state_a1 \<Rightarrow> pystr \<Rightarrow> pystr list \<Rightarrow> py_error + index_state_a1" where
  "index_tokens_a1 st tweet_id [] = Inr st"
| "index_tokens_a1 st tweet_id (trm # tokens) =
     (case index_term_a1 st tweet_id trm of
        Inl e \<Rightarrow> Inl e
      | Inr st' \<Rightarrow> index_tokens_a1 st' tweet_id tokens)"

text \<open>\<^verbatim>\<open>str.replace(old, new)\<close> for a non-empty \<^verbatim>\<open>old\<close>: leftmost non-overlapping occurrences.\<close>

function py_replace :: "pystr \<Rightarrow> pystr \<Rightarrow> pystr \<Rightarrow> pystr" where
  "py_replace old new [] = []"
| "py_replace old new (c # cs) =
     (if old \<noteq> [] \<and> take (length old) (c # cs) = old
      then new @ py_replace old new (drop (length old) (c # cs))
      else c # py_replace old new cs)"
  by pat_completeness auto
termination
  by (relation "measure (\<lambda>(old, new, s). length s)") auto

text \<open>
  \<^verbatim>\<open>str.split()\<close>: the maximal runs of non-whitespace characters. \<^verbatim>\<open>cur\<close> is the run
  being read.
\<close>

fun split_loop :: "unicode_tables \<Rightarrow> pystr \<Rightarrow> pystr \<Rightarrow> pystr list" where
  "split_loop U cur [] = (if cur = [] then [] else [cur])"
| "split_loop U cur (c # cs) =
     (if isspace U c then (if cur = [] then split_loop U [] cs else cur # split_loop U [] cs)
      else split_loop U (cur @ [c]) cs)"

definition py_split :: "unicode_tables \<Rightarrow> pystr \<Rightarrow> pystr list" where
  "py_split U s = split_loop U [] s"

text \<open>Lines 66--71: the tweet id and the normalised tokens of a row with at least five fields.\<close>

definition row_tokens :: "unicode_tables \<Rightarrow> pystr list \<Rightarrow> pystr list" where
  "row_tokens U row =
     (let tweet_text = py_replace (ustr ''[TAB]'') [9]
                         (py_replace (ustr ''[NEWLINE]'') [10] (row ! 4))
      in map (\<lambda>token. normalize U token False) (py_split U tweet_text))"

definition index_row :: "unicode_tables \<Rightarrow> index_state \<Rightarrow> pystr list \<Rightarrow> py_error + index_state" where
  "index_row U st row =
     (if length row < 5 then Inr st else index_tokens st (row ! 1) (row_tokens U row))"

definition index_row_a1 :: "unicode_tables \<Rightarrow> index_state_a1 \<Rightarrow> pystr list \<Rightarrow> py_error + index_state_a1" where
  "index_row_a1 U st row =
     (if length row < 5 then Inr st else index_tokens_a1 st (row ! 1) (row_tokens U row))"

text \<open>
  \<^verbatim>\<open>index(filename)\<close>, from the rows that \<^verbatim>\<open>csv.reader\<close> yields; opening and parsing the
  file are not modelled.
\<close>

fun index_rows :: "unicode_tables \<Rightarrow> index_state \<Rightarrow> pystr list list \<Rightarrow> py_error + index_state" where
  "index_rows U st [] = Inr st"
| "index_rows U st (row # rows) =
     (case index_row U st row of Inl e \<Rightarrow> Inl e | Inr st' \<Rightarrow> index_rows U st' rows)"

fun index_rows_a1 :: "unicode_tables \<Rightarrow> index_state_a1 \<Rightarrow> pystr list list \<Rightarrow> py_error + index_state_a1" where
  "index_rows_a1 U st [] = Inr st"
| "index_rows_a1 U st (row # rows) =
     (case index_row_a1 U st row of Inl e \<Rightarrow> Inl e | Inr st' \<Rightarrow> index_rows_a1 U st' rows)"

subsection \<open>Reading a chain\<close>

text \<open>
  \<^verbatim>\<open>postings_list_iterator(head)\<close>: the generator's output as a list; \<^verbatim>\<open>seen_ids\<close> is the
  set of ids already yielded.
\<close>

fun postings_list_loop :: "posting option \<Rightarrow> pystr set \<Rightarrow> pystr list" where
  "postings_list_loop None seen_ids = []"
| "postings_list_loop (Some (Posting d nxt)) seen_ids =
     (if d \<notin> seen_ids then d # postings_list_loop nxt (insert d seen_ids)
      else postings_list_loop nxt seen_ids)"

definition postings_list_iterator :: "posting option \<Rightarrow> pystr list" where
  "postings_list_iterator head = postings_list_loop head {}"

subsection \<open>Intersection\<close>

text \<open>\<^verbatim>\<open>next(iterator, None)\<close>: the next element and the advanced iterator.\<close>

fun next_default :: "'a list \<Rightarrow> 'a option \<times> 'a list" where
  "next_default [] = (None, [])"
| "next_default (x # xs) = (Some x, xs)"

text \<open>The \<^verbatim>\<open>while\<close> loop of \<^verbatim>\<open>intersect\<close>.\<close>

function intersect_loop ::
  "'a::linorder option \<Rightarrow> 'a list \<Rightarrow> 'a option \<Rightarrow> 'a list \<Rightarrow> 'a list \<Rightarrow> 'a list" where
  "intersect_loop None iterator1 doc_id2 iterator2 result = result"
| "intersect_loop (Some d1) iterator1 None iterator2 result = result"
| "intersect_loop (Some d1) iterator1 (Some d2) iterator2 result =
     (if d1 = d2 then
        intersect_loop (fst (next_default iterator1)) (snd (next_default iterator1))
                       (fst (next_default iterator2)) (snd (next_default iterator2))
                       (result @ [d1])
      else if d1 < d2 then
        intersect_loop (fst (next_default iterator1)) (snd (next_default iterator1))
                       (Some d2) iterator2 result
      else
        intersect_loop (Some d1) iterator1
                       (fst (next_default iterator2)) (snd (next_default iterator2)) result)"
  by pat_completeness auto
termination
proof (relation "measure (\<lambda>(d1, i1, d2, i2, r).
        (case d1 of None \<Rightarrow> 0 | Some _ \<Rightarrow> Suc (length i1)) +
        (case d2 of None \<Rightarrow> 0 | Some _ \<Rightarrow> Suc (length i2)))")
  show "wf (measure (\<lambda>(d1 :: 'a option, i1 :: 'a list, d2 :: 'a option, i2 :: 'a list, r :: 'a list).
        (case d1 of None \<Rightarrow> 0 | Some _ \<Rightarrow> Suc (length i1)) +
        (case d2 of None \<Rightarrow> 0 | Some _ \<Rightarrow> Suc (length i2))))"
    by simp
  fix d1 d2 :: 'a and iterator1 iterator2 result :: "'a list"
  show "((fst (next_default iterator1), snd (next_default iterator1),
          fst (next_default iterator2), snd (next_default iterator2), result @ [d1]),
         Some d1, iterator1, Some d2, iterator2, result)
        \<in> measure (\<lambda>(d1, i1, d2, i2, r).
             (case d1 of None \<Rightarrow> 0 | Some _ \<Rightarrow> Suc (length i1)) +
             (case d2 of None \<Rightarrow> 0 | Some _ \<Rightarrow> Suc (length i2)))"
    by (cases iterator1; cases iterator2) simp_all
  show "((fst (next_default iterator1), snd (next_default iterator1), Some d2, iterator2, result),
         Some d1, iterator1, Some d2, iterator2, result)
        \<in> measure (\<lambda>(d1, i1, d2, i2, r).
             (case d1 of None \<Rightarrow> 0 | Some _ \<Rightarrow> Suc (length i1)) +
             (case d2 of None \<Rightarrow> 0 | Some _ \<Rightarrow> Suc (length i2)))"
    by (cases iterator1) simp_all
  show "((Some d1, iterator1, fst (next_default iterator2), snd (next_default iterator2), result),
         Some d1, iterator1, Some d2, iterator2, result)
        \<in> measure (\<lambda>(d1, i1, d2, i2, r).
             (case d1 of None \<Rightarrow> 0 | Some _ \<Rightarrow> Suc (length i1)) +
             (case d2 of None \<Rightarrow> 0 | Some _ \<Rightarrow> Suc (length i2)))"
    by (cases iterator2) simp_all
qed

definition intersect :: "'a::linorder list \<Rightarrow> 'a list \<Rightarrow> 'a list" where
  "intersect list1 list2 =
     intersect_loop (fst (next_default list1)) (snd (next_default list1))
                    (fst (next_default list2)) (snd (next_default list2)) []"

text \<open>What an iterator of \<^verbatim>\<open>intersect\<close> still has to deliver, its current element included.\<close>

definition remaining :: "'a option \<Rightarrow> 'a list \<Rightarrow> 'a list" where
  "remaining doc_id iterator = (case doc_id of None \<Rightarrow> [] | Some d \<Rightarrow> d # iterator)"

text \<open>
  The final loop of \<^verbatim>\<open>query\<close> in assignment 2 (lines 167--171), with its early exit on an
  empty intermediate result, and the loop of assignment 1 (lines 95--96), which has none.
\<close>

fun intersect_all :: "'a::linorder list \<Rightarrow> 'a list list \<Rightarrow> 'a list" where
  "intersect_all result [] = result"
| "intersect_all result (postings # rest) =
     (let result = intersect result postings
      in if result = [] then result else intersect_all result rest)"

fun intersect_all_a1 :: "'a::linorder list \<Rightarrow> 'a list list \<Rightarrow> 'a list" where
  "intersect_all_a1 result [] = result"
| "intersect_all_a1 result (postings # rest) = intersect_all_a1 (intersect result postings) rest"

subsection \<open>Wildcard expansion\<close>

text \<open>\<^verbatim>\<open>str.find(c)\<close>: the index of the first occurrence; \<^verbatim>\<open>None\<close> stands for \<^verbatim>\<open>-1\<close>.\<close>

fun py_find :: "codepoint \<Rightarrow> pystr \<Rightarrow> nat option" where
  "py_find c [] = None"
| "py_find c (x # xs) = (if x = c then Some 0 else map_option Suc (py_find c xs))"

text \<open>\<^verbatim>\<open>str.rstrip(c)\<close> for a single character.\<close>

definition rstrip :: "codepoint \<Rightarrow> pystr \<Rightarrow> pystr" where
  "rstrip c s = rev (dropWhile (\<lambda>x. x = c) (rev s))"

text \<open>The search prefix that \<^verbatim>\<open>expand_wildcard\<close> computes from a term and the index of its first star.\<close>

definition search_prefix :: "pystr \<Rightarrow> nat \<Rightarrow> pystr" where
  "search_prefix trm index_of_star =
     (let term_with_dollar = trm @ [dollar];
          rotated = drop (index_of_star + 1) term_with_dollar
                    @ take (index_of_star + 1) term_with_dollar
      in rstrip star rotated)"

text \<open>
  \<^verbatim>\<open>expand_wildcard(term)\<close>. \<^verbatim>\<open>permuterm.startswith(s)\<close> is \<^term>\<open>prefix s permuterm\<close>;
  \<^verbatim>\<open>matching_terms.update\<close> is the union of duplicate-free lists.
\<close>

definition expand_wildcard :: "index_state \<Rightarrow> pystr \<Rightarrow> pystr list" where
  "expand_wildcard st trm =
     (case py_find star trm of
        None \<Rightarrow> [trm]
      | Some index_of_star \<Rightarrow>
          (let s = search_prefix trm index_of_star
           in fold (\<lambda>(permuterm, ts) matching_terms.
                      if prefix s permuterm then List.union matching_terms ts else matching_terms)
                   (permuterm_index st) []))"

subsection \<open>Queries\<close>

text \<open>
  The first loop of \<^verbatim>\<open>query\<close> in assignment 2 (lines 135--146); \<^term>\<open>None\<close> is the early
  \<^verbatim>\<open>return []\<close> for a wildcard term with no expansion.
\<close>

fun expand_terms :: "index_state \<Rightarrow> pystr list \<Rightarrow> pystr list list option" where
  "expand_terms st [] = Some []"
| "expand_terms st (trm # terms) =
     (if star \<in> set trm then
        (let expanded_terms = expand_wildcard st trm
         in if expanded_terms = [] then None
            else map_option ((#) expanded_terms) (expand_terms st terms))
      else map_option ((#) [trm]) (expand_terms st terms))"

text \<open>Lines 152--159: the union of the postings of the terms of one group that are in the dictionary.\<close>

fun term_postings_loop :: "index_state \<Rightarrow> pystr list \<Rightarrow> pystr set \<Rightarrow> py_error + pystr set" where
  "term_postings_loop st [] term_postings = Inr term_postings"
| "term_postings_loop st (trm # terms) term_postings =
     (case dictionary st trm of
        None \<Rightarrow> term_postings_loop st terms term_postings
      | Some term_data \<Rightarrow>
          (case postings_lists st (snd (snd term_data)) of
             None \<Rightarrow> Inl KeyError
           | Some head \<Rightarrow>
               term_postings_loop st terms (term_postings \<union> set (postings_list_iterator head))))"

text \<open>
  Lines 149--163; \<^term>\<open>Inr None\<close> is the early \<^verbatim>\<open>return []\<close> for a group without postings.
\<close>

fun gather_postings :: "index_state \<Rightarrow> pystr list list \<Rightarrow> py_error + pystr list list option" where
  "gather_postings st [] = Inr (Some [])"
| "gather_postings st (terms # rest) =
     (case term_postings_loop st terms {} of
        Inl e \<Rightarrow> Inl e
      | Inr term_postings \<Rightarrow>
          if term_postings = {} then Inr None
          else (case gather_postings st rest of
                  Inl e \<Rightarrow> Inl e
                | Inr None \<Rightarrow> Inr None
                | Inr (Some sorted_lists) \<Rightarrow>
                    Inr (Some (sorted_list_of_set term_postings # sorted_lists))))"

text \<open>
  \<^verbatim>\<open>query(*terms)\<close> of assignment 2. \<^verbatim>\<open>postings_lists[0]\<close> raises \<^verbatim>\<open>IndexError\<close> on the
  empty list.
\<close>

definition query :: "unicode_tables \<Rightarrow> index_state \<Rightarrow> pystr list \<Rightarrow> py_error + pystr list" where
  "query U st terms =
     (let normalized_terms = map (\<lambda>trm. normalize U trm True) terms in
      case expand_terms st normalized_terms of
        None \<Rightarrow> Inr []
      | Some expanded_terms_list \<Rightarrow>
          (case gather_postings st expanded_terms_list of
             Inl e \<Rightarrow> Inl e
           | Inr None \<Rightarrow> Inr []
           | Inr (Some sorted_lists) \<Rightarrow>
               (case sorted_lists of
                  [] \<Rightarrow> Inl IndexError
                | result # rest \<Rightarrow> Inr (intersect_all result rest))))"

text \<open>
  The first loop of \<^verbatim>\<open>query\<close> in assignment 1 (lines 85--91): it stops at the first term
  that is not in the dictionary.
\<close>

datatype gathered = Missing pystr | Failed py_error | Gathered "pystr list list"

fun gather_postings_a1 :: "index_state_a1 \<Rightarrow> pystr list \<Rightarrow> gathered" where
  "gather_postings_a1 st [] = Gathered []"
| "gather_postings_a1 st (trm # terms) =
     (case dictionary st trm of
        None \<Rightarrow> Missing trm
      | Some term_data \<Rightarrow>
          (case postings_lists st (snd (snd term_data)) of
             None \<Rightarrow> Failed KeyError
           | Some head \<Rightarrow>
               (case gather_postings_a1 st terms of
                  Gathered sorted_lists \<Rightarrow>
                    Gathered (sort (postings_list_iterator head) # sorted_lists)
                | other \<Rightarrow> other)))"

text \<open>
  \<^verbatim>\<open>query(*terms)\<close> of assignment 1: the lines printed to the console, and the value
  returned or the exception raised.
\<close>

definition query_a1 :: "unicode_tables \<Rightarrow> index_state_a1 \<Rightarrow> pystr list \<Rightarrow> pystr list \<times> (py_error + pystr list)" where
  "query_a1 U st terms =
     (let normalized_terms = map (\<lambda>trm. normalize U trm False) terms in
      case gather_postings_a1 st normalized_terms of
        Missing trm \<Rightarrow>
          ([(ustr ''Term '') @ [39] @ trm @ [39] @ (ustr '' not found in the index.'')], Inr [])
      | Failed e \<Rightarrow> ([], Inl e)
      | Gathered sorted_lists \<Rightarrow>
          (case sorted_lists of
             [] \<Rightarrow> ([], Inl IndexError)
           | result # rest \<Rightarrow> ([], Inr (intersect_all_a1 result rest))))"

subsection \<open>Invariants of the build phase\<close>

text \<open>
  Every dictionary entry is stored under its own term, its pointer is below the counter
  and leads to a chain whose number of nodes is the entry's size and in which no two
  adjacent nodes carry the same document id; distinct terms have distinct pointers.
\<close>

definition index_inv :: "'a index_state_a1_scheme \<Rightarrow> bool" where
  "index_inv st \<longleftrightarrow>
     (\<forall>trm t n p. dictionary st trm = Some (t, n, p) \<longrightarrow>
        t = trm \<and> p < posting_id_counter st \<and>
        (\<exists>head. postings_lists st p = Some head \<and> length (chain_ids head) = n \<and>
                distinct_adj (chain_ids head))) \<and>
     (\<forall>t1 t2 e1 e2. dictionary st t1 = Some e1 \<and> dictionary st t2 = Some e2 \<and>
        snd (snd e1) = snd (snd e2) \<longrightarrow> t1 = t2)"


text \<open>The set of terms that the permuterm index stores under a rotation.\<close>

definition terms_at :: "(pystr \<times> pystr list) list \<Rightarrow> pystr \<Rightarrow> pystr set" where
  "terms_at pidx k = (case map_of pidx k of None \<Rightarrow> {} | Some ts \<Rightarrow> set ts)"

text \<open>
  The permuterm index has one entry per key, and stores under each rotation exactly the
  registered terms \<open>R\<close> that have this rotation.
\<close>

definition permuterm_inv :: "pystr set \<Rightarrow> (pystr \<times> pystr list) list \<Rightarrow> bool" where
  "permuterm_inv R pidx \<longleftrightarrow>
     distinct (map fst pidx) \<and>
     (\<forall>k. terms_at pidx k = {t \<in> R. k \<in> set (generate_permuterms t)})"

text \<open>
  The terms that \<^verbatim>\<open>index\<close> registers for a list of rows: the non-empty normalised tokens
  of the rows with at least five fields.
\<close>

definition corpus_terms :: "unicode_tables \<Rightarrow> pystr list list \<Rightarrow> pystr set" where
  "corpus_terms U rows =
     set (filter (\<lambda>trm. trm \<noteq> [])
            (concat (map (row_tokens U) (filter (\<lambda>row. \<not> length row < 5) rows))))"

text \<open>The state of assignment 2 after registering exactly the terms \<open>R\<close>.\<close>

definition built :: "pystr set \<Rightarrow> index_state \<Rightarrow> bool" where
  "built R st \<longleftrightarrow>
     index_inv st \<and> dom (dictionary st) = R \<and> permuterm_inv R (permuterm_index st)"

subsection \<open>Example corpora\<close>

text \<open>Rows as \<^verbatim>\<open>csv.reader\<close> yields them: the tweet id is field 1, the text field 4.\<close>

definition interleaved_rows :: "pystr list list" where
  "interleaved_rows =
     [[ustr ''1'', ustr ''d1'', ustr ''u'', ustr ''en'', ustr ''a''],
      [ustr ''2'', ustr ''d2'', ustr ''u'', ustr ''en'', ustr ''a''],
      [ustr ''3'', ustr ''d1'', ustr ''u'', ustr ''en'', ustr ''a a'']]"

definition example_rows :: "pystr list list" where
  "example_rows =
     [[ustr ''1'', ustr ''d1'', ustr ''u'', ustr ''en'', ustr ''Side effects''],
      [ustr ''2'', ustr ''d2'', ustr ''u'', ustr ''en'', ustr ''side effect''],
      [ustr ''3'', ustr ''d3'', ustr ''u'', ustr ''en'', ustr ''no''],
      [ustr ''4'', ustr ''d4'']]"

text \<open>
  Rows with text outside ASCII: \<^verbatim>\<open>Caf\<close> followed by U+00E9; \<^verbatim>\<open>c\<close>, U+0085, \<^verbatim>\<open>d\<close>, a space,
  \<^verbatim>\<open>e\<close>, U+00A0, \<^verbatim>\<open>f\<close>; and U+00E9 alone.
\<close>

definition accent_rows :: "pystr list list" where
  "accent_rows =
     [[ustr ''1'', ustr ''d1'', ustr ''u'', ustr ''fr'', ustr ''Caf'' @ [233]],
      [ustr ''2'', ustr ''d2'', ustr ''u'', ustr ''en'', [99, 133, 100, 32, 101, 160, 102]],
      [ustr ''3'', ustr ''d3'', ustr ''u'', ustr ''fr'', [233]]]"

section \<open>Permuterm rotations of a term\<close>

lemma append_sep_unique:
  "x \<notin> set a \<Longrightarrow> x \<notin> set b \<Longrightarrow> a @ x # c = b @ x # d \<Longrightarrow> a = b \<and> c = d"
proof (induction a arbitrary: b)
  case Nil
  then show ?case by (cases b) auto
next
  case (Cons y a)
  then show ?case by (cases b) auto
qed

lemma generate_permuterms_alt:
  "generate_permuterms t = map (\<lambda>i. drop i t @ dollar # take i t) [0..<Suc (length t)]"
  by (simp add: generate_permuterms_def Let_def del: upt_Suc)

lemma rotation_inj:
  assumes "dollar \<notin> set t" "i \<le> length t" "j \<le> length t"
    and eq: "drop i t @ dollar # take i t = drop j t @ dollar # take j t"
  shows "i = j"
proof -
  have "dollar \<notin> set (drop i t)" "dollar \<notin> set (drop j t)"
    using assms(1) by (auto dest: in_set_dropD)
  from append_sep_unique[OF this eq] have "take i t = take j t" by simp
  then have "length (take i t) = length (take j t)" by simp
  with assms(2,3) show ?thesis by simp
qed

lemma generate_permuterms_distinct:
  assumes "dollar \<notin> set t"
  shows "distinct (generate_permuterms t)"
proof -
  have "inj_on (\<lambda>i. drop i t @ dollar # take i t) (set [0..<Suc (length t)])"
    by (rule inj_onI) (use assms in \<open>auto intro!: rotation_inj[of t] simp del: upt_Suc\<close>)
  then show ?thesis
    by (simp add: generate_permuterms_alt distinct_map del: upt_Suc)
qed

text \<open>
  Claim C6. For a term \<open>t\<close> without the sentinel \<^verbatim>\<open>$\<close>, \<^verbatim>\<open>generate_permuterms(t)\<close> returns
  exactly \<open>len(t) + 1\<close> strings, the \<open>i\<close>-th being the rotation
  \<^verbatim>\<open>(t+'$')[i:] + (t+'$')[:i]\<close> for \<open>i\<close> from 0 to \<open>len(t)\<close>, and they are pairwise
  distinct. (Length and order hold for every term; distinctness needs the sentinel to be
  absent from the term.)
\<close>

theorem generate_permuterms_rotations:
  "length (generate_permuterms t) = length t + 1 \<and>
   (\<forall>i \<le> length t. generate_permuterms t ! i = drop i (t @ [dollar]) @ take i (t @ [dollar])) \<and>
   (dollar \<notin> set t \<longrightarrow> distinct (generate_permuterms t))"
proof (intro conjI allI impI)
  show "length (generate_permuterms t) = length t + 1"
    by (simp add: generate_permuterms_def)
next
  fix i assume "i \<le> length t"
  then have "i < length (t @ [dollar])" by simp
  then show "generate_permuterms t ! i = drop i (t @ [dollar]) @ take i (t @ [dollar])"
    unfolding generate_permuterms_def Let_def
    by (simp only: nth_map_upt length_upt minus_nat.diff_0 add_0)
next
  assume "dollar \<notin> set t"
  then show "distinct (generate_permuterms t)" by (rule generate_permuterms_distinct)
qed

theorem generate_permuterms_rotations_witness:
  "dollar \<notin> set (ustr ''ab'') \<and> length (generate_permuterms (ustr ''ab'')) = 3 \<and>
   generate_permuterms (ustr ''ab'') ! 1 = (ustr ''b$a'') \<and> distinct (generate_permuterms (ustr ''ab''))"
  using generate_permuterms_rotations[of "ustr ''ab''"]
  by (simp add: ustr_def dollar_def)

section \<open>Reading a postings chain\<close>

lemma postings_list_loop_positions:
  "postings_list_loop head seen =
     map (\<lambda>i. chain_ids head ! i)
       (filter (\<lambda>i. chain_ids head ! i \<notin> seen \<union> set (take i (chain_ids head)))
          [0..<length (chain_ids head)])"
proof (induction head seen rule: postings_list_loop.induct)
  case (1 seen)
  show ?case by simp
next
  case (2 d nxt seen)
  have upt: "[0..<Suc n] = 0 # map Suc [0..<n]" for n
    by (simp add: upt_conv_Cons map_Suc_upt del: upt_Suc)
  show ?case
  proof (cases "d \<in> seen")
    case True
    then have absorb: "(a \<notin> seen \<and> a \<noteq> d \<and> P) = (a \<notin> seen \<and> P)" for a P
      by auto
    from True 2 show ?thesis
      by (simp add: upt filter_map o_def absorb del: upt_Suc)
  next
    case False
    have swap: "(a \<noteq> d \<and> a \<notin> seen \<and> P) = (a \<notin> seen \<and> a \<noteq> d \<and> P)" for a P
      by auto
    from False 2 show ?thesis
      by (simp add: upt filter_map o_def swap del: upt_Suc)
  qed
qed

lemma postings_list_loop_set:
  "set (postings_list_loop head seen) = set (chain_ids head) - seen"
  by (induction head seen rule: postings_list_loop.induct) auto

lemma postings_list_loop_distinct:
  "distinct (postings_list_loop head seen)"
  by (induction head seen rule: postings_list_loop.induct) (auto simp: postings_list_loop_set)

lemma postings_list_iterator_set [simp]:
  "set (postings_list_iterator head) = set (chain_ids head)"
  by (simp add: postings_list_iterator_def postings_list_loop_set)

text \<open>
  Claim C7. For every postings chain, the iterator yields each document id of the chain
  exactly once, in the order of first occurrence walking from the head: its output has no
  duplicate, has the same elements as the chain, and consists of exactly the ids at the
  positions of the chain whose id does not occur at an earlier position.
\<close>

theorem postings_list_iterator_first_occurrences:
  "distinct (postings_list_iterator head) \<and>
   set (postings_list_iterator head) = set (chain_ids head) \<and>
   postings_list_iterator head =
     map (\<lambda>i. chain_ids head ! i)
       (filter (\<lambda>i. chain_ids head ! i \<notin> set (take i (chain_ids head)))
          [0..<length (chain_ids head)])"
proof (intro conjI)
  show "distinct (postings_list_iterator head)"
    by (simp add: postings_list_iterator_def postings_list_loop_distinct)
  show "set (postings_list_iterator head) = set (chain_ids head)"
    by (simp add: postings_list_iterator_def postings_list_loop_set)
  show "postings_list_iterator head =
     map (\<lambda>i. chain_ids head ! i)
       (filter (\<lambda>i. chain_ids head ! i \<notin> set (take i (chain_ids head)))
          [0..<length (chain_ids head)])"
    using postings_list_loop_positions[of head "{}"]
    by (simp add: postings_list_iterator_def)
qed

section \<open>Two-pointer intersection\<close>

lemma remaining_next [simp]:
  "remaining (fst (next_default xs)) (snd (next_default xs)) = xs"
  by (cases xs) (simp_all add: remaining_def)

lemma remaining_simps [simp]:
  "remaining None it = []" "remaining (Some d) it = d # it"
  by (simp_all add: remaining_def)

lemma intersect_loop_filter:
  "sorted_wrt (<) (remaining d1 i1) \<Longrightarrow> sorted_wrt (<) (remaining d2 i2) \<Longrightarrow>
   intersect_loop d1 i1 d2 i2 r = r @ filter (\<lambda>a. a \<in> set (remaining d2 i2)) (remaining d1 i1)"
proof (induction d1 i1 d2 i2 r rule: intersect_loop.induct)
  case (1 iterator1 doc_id2 iterator2 result)
  show ?case by simp
next
  case (2 d1 iterator1 iterator2 result)
  show ?case by simp
next
  case (3 d1 iterator1 d2 iterator2 result)
  from "3.prems" have s1: "sorted_wrt (<) iterator1" and s2: "sorted_wrt (<) iterator2"
    and lt1: "\<forall>a \<in> set iterator1. d1 < a" and lt2: "\<forall>a \<in> set iterator2. d2 < a"
    by auto
  consider (eq) "d1 = d2" | (lt) "d1 < d2" | (gt) "d2 < d1"
    by (metis less_linear)
  then show ?case
  proof cases
    case eq
    have "filter (\<lambda>a. a = d2 \<or> a \<in> set iterator2) iterator1 = filter (\<lambda>a. a \<in> set iterator2) iterator1"
      using lt1 eq by (auto intro!: filter_cong)
    with eq "3.IH"(1) s1 s2 show ?thesis by simp
  next
    case lt
    then have "d1 \<notin> set iterator2" "d1 \<noteq> d2" using lt2 by auto
    with lt "3.IH"(2) s1 "3.prems"(2) show ?thesis by simp
  next
    case gt
    have "filter (\<lambda>a. a = d2 \<or> a \<in> set iterator2) iterator1 = filter (\<lambda>a. a \<in> set iterator2) iterator1"
      using lt1 gt by (auto intro!: filter_cong)
    moreover have "d1 \<noteq> d2" "\<not> d1 < d2" using gt by auto
    ultimately show ?thesis using "3.IH"(3) s2 "3.prems"(1) by simp
  qed
qed

lemma intersect_filter:
  "sorted_wrt (<) l1 \<Longrightarrow> sorted_wrt (<) l2 \<Longrightarrow> intersect l1 l2 = filter (\<lambda>a. a \<in> set l2) l1"
  unfolding intersect_def using intersect_loop_filter[of "fst (next_default l1)" "snd (next_default l1)" "fst (next_default l2)" "snd (next_default l2)" "[]"]
  by simp

lemma intersect_Nil [simp]: "intersect [] l = []" "intersect l [] = []"
  by (cases l; simp add: intersect_def)+

lemma intersect_strict_sorted:
  "sorted_wrt (<) l1 \<Longrightarrow> sorted_wrt (<) l2 \<Longrightarrow> sorted_wrt (<) (intersect l1 l2)"
  by (simp add: intersect_filter sorted_wrt_filter)

lemma intersect_set:
  "sorted_wrt (<) l1 \<Longrightarrow> sorted_wrt (<) l2 \<Longrightarrow> set (intersect l1 l2) = set l1 \<inter> set l2"
  by (auto simp: intersect_filter)

lemma intersect_all_a1_eq: "intersect_all_a1 r ps = intersect_all r ps"
proof (induction r ps rule: intersect_all.induct)
  case (1 result)
  show ?case by simp
next
  case (2 result postings rest)
  have "intersect_all_a1 [] qs = []" for qs :: "'a list list"
    by (induction qs) simp_all
  with 2 show ?case by (simp add: Let_def)
qed

lemma intersect_all_a1_props:
  "sorted_wrt (<) r \<Longrightarrow> \<forall>l \<in> set ps. sorted_wrt (<) l \<Longrightarrow>
   sorted_wrt (<) (intersect_all_a1 r ps) \<and> set (intersect_all_a1 r ps) = set r \<inter> \<Inter> (set ` set ps)"
  by (induction r ps rule: intersect_all_a1.induct)
     (auto simp: intersect_strict_sorted intersect_set)

lemma strict_sorted_unique:
  "sorted_wrt (<) xs \<Longrightarrow> sorted_wrt (<) ys \<Longrightarrow> set xs = set ys \<Longrightarrow> xs = (ys :: 'a::linorder list)"
  by (simp add: strict_sorted_equal)

lemma intersect_all_a1_content:
  assumes "ls \<noteq> []" "\<forall>l \<in> set ls. sorted_wrt (<) l"
  shows "sorted_wrt (<) (intersect_all_a1 (hd ls) (tl ls)) \<and> set (intersect_all_a1 (hd ls) (tl ls)) = \<Inter> (set ` set ls)"
proof -
  obtain r ps where ls: "ls = r # ps" using assms(1) by (cases ls) auto
  with assms(2) intersect_all_a1_props[of r ps] show ?thesis by auto
qed

text \<open>
  Claim C4. For sorted duplicate-free lists, \<^verbatim>\<open>intersect\<close> returns the sorted list of the
  elements common to both; intersecting any list with the empty list gives the empty list;
  and chaining the intersection over a non-empty collection of sorted duplicate-free lists
  (with or without the early exit of assignment 2) gives the same result for every
  ordering of the collection, namely the elements common to all of them.
\<close>

theorem intersect_sorted_common:
  fixes l1 l2 l :: "'a::linorder list" and ls ls' :: "'a list list"
  shows "(sorted l1 \<and> distinct l1 \<and> sorted l2 \<and> distinct l2 \<longrightarrow>
            intersect l1 l2 = sorted_list_of_set (set l1 \<inter> set l2)) \<and>
         intersect l [] = [] \<and> intersect [] l = [] \<and>
         (ls \<noteq> [] \<and> mset ls' = mset ls \<and> (\<forall>x \<in> set ls. sorted x \<and> distinct x) \<longrightarrow>
            intersect_all (hd ls') (tl ls') = intersect_all (hd ls) (tl ls) \<and>
            intersect_all_a1 (hd ls') (tl ls') = intersect_all_a1 (hd ls) (tl ls) \<and>
            set (intersect_all (hd ls) (tl ls)) = \<Inter> (set ` set ls))"
proof (intro conjI impI)
  assume a: "sorted l1 \<and> distinct l1 \<and> sorted l2 \<and> distinct l2"
  then have s: "sorted_wrt (<) l1" "sorted_wrt (<) l2"
    by (simp_all add: strict_sorted_iff)
  have "sorted_wrt (<) (sorted_list_of_set (set l1 \<inter> set l2))"
    by (simp add: strict_sorted_iff)
  moreover have "set (sorted_list_of_set (set l1 \<inter> set l2)) = set (intersect l1 l2)"
    using s by (simp add: intersect_set)
  ultimately show "intersect l1 l2 = sorted_list_of_set (set l1 \<inter> set l2)"
    using intersect_strict_sorted[OF s] strict_sorted_unique by metis
next
  show "intersect l [] = []" "intersect [] l = []" by simp_all
next
  assume a: "ls \<noteq> [] \<and> mset ls' = mset ls \<and> (\<forall>x \<in> set ls. sorted x \<and> distinct x)"
  then have ne: "ls \<noteq> []" "ls' \<noteq> []" and seteq: "set ls' = set ls"
    and s: "\<forall>x \<in> set ls. sorted_wrt (<) x"
    by (auto simp: strict_sorted_iff dest: mset_eq_setD)
  from s seteq have s': "\<forall>x \<in> set ls'. sorted_wrt (<) x" by simp
  from intersect_all_a1_content[OF ne(1) s] intersect_all_a1_content[OF ne(2) s'] seteq
  show a1: "intersect_all_a1 (hd ls') (tl ls') = intersect_all_a1 (hd ls) (tl ls)"
    by (intro strict_sorted_unique) auto
  then show "intersect_all (hd ls') (tl ls') = intersect_all (hd ls) (tl ls)"
    by (simp add: intersect_all_a1_eq)
  show "set (intersect_all (hd ls) (tl ls)) = \<Inter> (set ` set ls)"
    using intersect_all_a1_content[OF ne(1) s] by (simp add: intersect_all_a1_eq)
qed

theorem intersect_sorted_common_witness:
  "intersect [1, 3, 5, 7 :: nat] [2, 3, 4, 7, 9] = [3, 7] \<and>
   intersect_all (hd [[2, 3, 7], [1, 3, 7 :: nat]]) (tl [[2, 3, 7], [1, 3, 7]]) = 
   intersect_all (hd [[1, 3, 7], [2, 3, 7 :: nat]]) (tl [[1, 3, 7], [2, 3, 7]])"
  using intersect_sorted_common[of "[1, 3, 5, 7 :: nat]" "[2, 3, 4, 7, 9]" "[]" "[[1, 3, 7], [2, 3, 7 :: nat]]" "[[2, 3, 7], [1, 3, 7 :: nat]]"]
  by (simp add: insert_commute)

section \<open>Appending a document to a chain\<close>

text \<open>
  Claim C5. For a term whose dictionary entry is \<open>(t, n, p)\<close> and whose chain has head
  \<open>head\<close>, appending the document \<open>d\<close> succeeds; it pushes a new head node linking to the
  previous head, and increments the counter, exactly when the chain is empty or the
  head's document id differs from \<open>d\<close>, and otherwise changes nothing. The chain grows by one
  node exactly in the first case, and appending the same document again leaves the state,
  hence the chain length, unchanged.
\<close>

theorem append_posting_head:
  assumes "dictionary st trm = Some (t, n, p)" and "postings_lists st p = Some head"
  shows "\<exists>st'. append_posting st trm d = Inr st' \<and>
           (if head = None \<or> map_option document_id head \<noteq> Some d
            then postings_lists st' p = Some (Some (Posting d head)) \<and>
                 dictionary st' trm = Some (trm, n + 1, p)
            else st' = st) \<and>
           (\<exists>head'. postings_lists st' p = Some head' \<and>
              (length (chain_ids head') = length (chain_ids head) + 1
                 \<longleftrightarrow> head = None \<or> map_option document_id head \<noteq> Some d)) \<and>
           append_posting st' trm d = Inr st'"
proof (cases "head = None \<or> map_option document_id head \<noteq> Some d")
  case True
  then have c: "(case head of None \<Rightarrow> True | Some q \<Rightarrow> document_id q \<noteq> d)"
    by (auto split: option.splits)
  let ?st' = "st\<lparr>postings_lists := (postings_lists st)(p \<mapsto> Some (Posting d head)),
                 dictionary := (dictionary st)(trm \<mapsto> (trm, n + 1, p))\<rparr>"
  have 1: "append_posting st trm d = Inr ?st'"
    using assms c by (simp add: append_posting_def)
  have 2: "append_posting ?st' trm d = Inr ?st'"
    by (simp add: append_posting_def)
  from 1 2 True show ?thesis by simp
next
  case False
  then obtain q where h: "head = Some q" "document_id q = d"
    by (cases head) auto
  then have 1: "append_posting st trm d = Inr st"
    using assms by (simp add: append_posting_def)
  with False assms show ?thesis by simp
qed

theorem append_posting_head_witness:
  "\<exists>st'. append_posting (ensure_term init_a1 (ustr ''a'')) (ustr ''a'') (ustr ''d1'') = Inr st' \<and>
     postings_lists st' 0 = Some (Some (Posting (ustr ''d1'') None)) \<and>
     dictionary st' (ustr ''a'') = Some (ustr ''a'', 1, 0) \<and>
     append_posting st' (ustr ''a'') (ustr ''d1'') = Inr st'"
proof -
  have d: "dictionary (ensure_term init_a1 (ustr ''a'')) (ustr ''a'') = Some (ustr ''a'', 0, 0)"
    by (simp add: ensure_term_def init_a1_def)
  have p: "postings_lists (ensure_term init_a1 (ustr ''a'')) 0 = Some None"
    by (simp add: ensure_term_def init_a1_def)
  from append_posting_head[OF d p, of "ustr ''d1''"] show ?thesis
    by auto
qed

section \<open>The build phase keeps the index well formed\<close>

lemma index_invI:
  assumes "\<And>trm t n p. dictionary st trm = Some (t, n, p) \<Longrightarrow>
        t = trm \<and> p < posting_id_counter st \<and>
        (\<exists>head. postings_lists st p = Some head \<and> length (chain_ids head) = n \<and>
                distinct_adj (chain_ids head))"
    and "\<And>t1 t2 e1 e2. dictionary st t1 = Some e1 \<Longrightarrow> dictionary st t2 = Some e2 \<Longrightarrow>
        snd (snd e1) = snd (snd e2) \<Longrightarrow> t1 = t2"
  shows "index_inv st"
  unfolding index_inv_def using assms by blast

lemma index_inv_init_a1: "index_inv init_a1"
  by (simp add: index_inv_def init_a1_def)

lemma index_inv_init: "index_inv init"
  by (simp add: index_inv_def init_def)

lemma index_inv_permuterm [simp]:
  "index_inv (st\<lparr>permuterm_index := x\<rparr>) = index_inv st"
  by (simp add: index_inv_def)

lemma ensure_term_inv:
  assumes "index_inv st"
  shows "index_inv (ensure_term st trm)"
proof (cases "dictionary st trm")
  case (Some e)
  with assms show ?thesis by (simp add: ensure_term_def)
next
  case None
  let ?c = "posting_id_counter st"
  have fresh: "snd (snd e) < ?c" if "dictionary st u = Some e" for u e
    using assms that unfolding index_inv_def by (cases e) auto
  show ?thesis
  proof (rule index_invI)
    fix u t n p
    assume a: "dictionary (ensure_term st trm) u = Some (t, n, p)"
    show "t = u \<and> p < posting_id_counter (ensure_term st trm) \<and>
        (\<exists>head. postings_lists (ensure_term st trm) p = Some head \<and> length (chain_ids head) = n \<and>
                distinct_adj (chain_ids head))"
    proof (cases "u = trm")
      case True
      with a None show ?thesis by (simp add: ensure_term_def Let_def)
    next
      case False
      with a None have d: "dictionary st u = Some (t, n, p)"
        by (simp add: ensure_term_def Let_def)
      with assms have "t = u \<and> p < ?c \<and>
        (\<exists>head. postings_lists st p = Some head \<and> length (chain_ids head) = n \<and>
                distinct_adj (chain_ids head))"
        unfolding index_inv_def by blast
      with None show ?thesis by (auto simp add: ensure_term_def Let_def)
    qed
  next
    fix t1 t2 e1 e2
    assume "dictionary (ensure_term st trm) t1 = Some e1"
       "dictionary (ensure_term st trm) t2 = Some e2" "snd (snd e1) = snd (snd e2)"
    then have a: "dictionary (ensure_term st trm) t1 = Some e1 \<and>
       dictionary (ensure_term st trm) t2 = Some e2 \<and> snd (snd e1) = snd (snd e2)" by simp
    show "t1 = t2"
    proof (cases "t1 = trm"; cases "t2 = trm")
      assume "t1 = trm" "t2 = trm" then show ?thesis by simp
    next
      assume h: "t1 = trm" "t2 \<noteq> trm"
      with a None have "dictionary st t2 = Some e2" "snd (snd e2) = ?c"
        by (auto simp add: ensure_term_def Let_def)
      with fresh[of t2 e2] show ?thesis by simp
    next
      assume h: "t1 \<noteq> trm" "t2 = trm"
      with a None have "dictionary st t1 = Some e1" "snd (snd e1) = ?c"
        by (auto simp add: ensure_term_def Let_def)
      with fresh[of t1 e1] show ?thesis by simp
    next
      assume h: "t1 \<noteq> trm" "t2 \<noteq> trm"
      with a None have "dictionary st t1 = Some e1" "dictionary st t2 = Some e2"
        by (auto simp add: ensure_term_def Let_def)
      with a assms show ?thesis unfolding index_inv_def by blast
    qed
  qed
qed

lemma ensure_term_dom: "dom (dictionary (ensure_term st trm)) = insert trm (dom (dictionary st))"
  by (auto simp: ensure_term_def Let_def)

lemma ensure_term_permuterm [simp]:
  "permuterm_index (ensure_term st trm) = permuterm_index st"
  by (simp add: ensure_term_def Let_def)

lemma append_posting_inv:
  assumes inv: "index_inv st" and dom: "trm \<in> dom (dictionary st)"
  shows "\<exists>st'. append_posting st trm d = Inr st' \<and> index_inv st' \<and>
           dom (dictionary st') = dom (dictionary st)"
proof -
  from dom obtain t n p where e: "dictionary st trm = Some (t, n, p)"
    by (cases "dictionary st trm") auto
  with inv obtain head where h: "t = trm" "p < posting_id_counter st" "postings_lists st p = Some head"
    "length (chain_ids head) = n" "distinct_adj (chain_ids head)"
    unfolding index_inv_def by blast
  show ?thesis
  proof (cases "case head of None \<Rightarrow> True | Some q \<Rightarrow> document_id q \<noteq> d")
    case False
    with e h have "append_posting st trm d = Inr st"
      by (simp add: append_posting_def)
    with inv show ?thesis by simp
  next
    case True
    let ?st' = "st\<lparr>postings_lists := (postings_lists st)(p \<mapsto> Some (Posting d head)),
                 dictionary := (dictionary st)(trm \<mapsto> (trm, n + 1, p))\<rparr>"
    have r: "append_posting st trm d = Inr ?st'"
      using e h True by (simp add: append_posting_def)
    have adj: "distinct_adj (d # chain_ids head)"
    proof (cases head)
      case None
      then show ?thesis by simp
    next
      case (Some q)
      with True h(5) show ?thesis by (cases q) simp
    qed
    have other: "snd (snd e') \<noteq> p" if "dictionary st u = Some e'" "u \<noteq> trm" for u e'
      using inv e that unfolding index_inv_def by (metis snd_conv)
    have "index_inv ?st'"
    proof (rule index_invI)
      fix u t' n' p'
      assume a: "dictionary ?st' u = Some (t', n', p')"
      show "t' = u \<and> p' < posting_id_counter ?st' \<and>
        (\<exists>head. postings_lists ?st' p' = Some head \<and> length (chain_ids head) = n' \<and>
                distinct_adj (chain_ids head))"
      proof (cases "u = trm")
        case True
        with a h adj show ?thesis by auto
      next
        case False
        with a have d: "dictionary st u = Some (t', n', p')" by simp
        from other[OF d False] have ne: "p' \<noteq> p" by simp
        from d inv have "t' = u \<and> p' < posting_id_counter st \<and>
          (\<exists>head. postings_lists st p' = Some head \<and> length (chain_ids head) = n' \<and>
                distinct_adj (chain_ids head))"
          unfolding index_inv_def by blast
        with ne show ?thesis by simp
      qed
    next
      fix t1 t2 e1 e2
      assume "dictionary ?st' t1 = Some e1" "dictionary ?st' t2 = Some e2"
        "snd (snd e1) = snd (snd e2)"
      then have a: "dictionary ?st' t1 = Some e1 \<and> dictionary ?st' t2 = Some e2 \<and>
        snd (snd e1) = snd (snd e2)" by simp
      show "t1 = t2"
      proof (cases "t1 = trm"; cases "t2 = trm")
        assume "t1 = trm" "t2 = trm" then show ?thesis by simp
      next
        assume c: "t1 = trm" "t2 \<noteq> trm"
        with a have "dictionary st t2 = Some e2" "snd (snd e2) = p" by auto
        with other[of t2 e2] c show ?thesis by simp
      next
        assume c: "t1 \<noteq> trm" "t2 = trm"
        with a have "dictionary st t1 = Some e1" "snd (snd e1) = p" by auto
        with other[of t1 e1] c show ?thesis by simp
      next
        assume c: "t1 \<noteq> trm" "t2 \<noteq> trm"
        with a have "dictionary st t1 = Some e1" "dictionary st t2 = Some e2" by auto
        with a inv show ?thesis unfolding index_inv_def by blast
      qed
    qed
    moreover have "dom (dictionary ?st') = dom (dictionary st)"
      using dom by auto
    ultimately show ?thesis using r by simp
  qed
qed


lemma append_posting_permuterm:
  "append_posting st trm d = Inr st' \<Longrightarrow> permuterm_index st' = permuterm_index (st :: index_state)"
  by (auto simp: append_posting_def Let_def split: option.splits if_splits)

lemma register_permuterm_terms_at:
  "terms_at (register_permuterm trm k pidx) k' =
     (if k' = k then insert trm (terms_at pidx k) else terms_at pidx k')"
  by (auto simp: terms_at_def register_permuterm_def update_conv' split: option.splits)

lemma register_permuterm_distinct:
  "distinct (map fst pidx) \<Longrightarrow> distinct (map fst (register_permuterm trm k pidx))"
  by (simp add: register_permuterm_def distinct_update split: option.splits)

lemma fold_register_terms_at:
  "terms_at (fold (register_permuterm trm) ks pidx) k' =
     (if k' \<in> set ks then insert trm (terms_at pidx k') else terms_at pidx k')"
  by (induction ks arbitrary: pidx) (auto simp: register_permuterm_terms_at)

lemma fold_register_distinct:
  "distinct (map fst pidx) \<Longrightarrow> distinct (map fst (fold (register_permuterm trm) ks pidx))"
  by (induction ks arbitrary: pidx) (auto simp: register_permuterm_distinct)

lemma register_permuterms_inv:
  "permuterm_inv R pidx \<Longrightarrow> permuterm_inv (insert trm R) (register_permuterms trm pidx)"
  unfolding permuterm_inv_def register_permuterms_def
  by (auto simp: fold_register_terms_at fold_register_distinct)

lemma index_term_built:
  assumes "built R st"
  shows "\<exists>st'. index_term st d trm = Inr st' \<and> built (if trm = [] then R else insert trm R) st'"
proof (cases "trm = []")
  case True
  with assms show ?thesis by (simp add: index_term_def)
next
  case False
  let ?st1 = "ensure_term (st\<lparr>permuterm_index := register_permuterms trm (permuterm_index st)\<rparr>) trm"
  have i1: "index_inv ?st1" using assms by (simp add: built_def ensure_term_inv)
  have d1: "dom (dictionary ?st1) = insert trm R"
    using assms by (simp add: built_def ensure_term_dom)
  have p1: "permuterm_index ?st1 = register_permuterms trm (permuterm_index st)" by simp
  from d1 have "trm \<in> dom (dictionary ?st1)" by simp
  from append_posting_inv[OF i1 this, of d] obtain st' where
    r: "append_posting ?st1 trm d = Inr st'" "index_inv st'" "dom (dictionary st') = dom (dictionary ?st1)"
    by blast
  from append_posting_permuterm[OF r(1)] p1 have "permuterm_index st' = register_permuterms trm (permuterm_index st)"
    by simp
  with r d1 assms False show ?thesis
    by (simp add: index_term_def built_def register_permuterms_inv)
qed

lemma index_tokens_built:
  "built R st \<Longrightarrow>
   \<exists>st'. index_tokens st d tokens = Inr st' \<and> built (R \<union> {t \<in> set tokens. t \<noteq> []}) st'"
proof (induction tokens arbitrary: R st)
  case Nil
  then show ?case by simp
next
  case (Cons trm tokens)
  from index_term_built[OF Cons.prems, of d trm] obtain st1 where
    1: "index_term st d trm = Inr st1" "built (if trm = [] then R else insert trm R) st1"
    by blast
  from Cons.IH[OF 1(2)] obtain st' where
    2: "index_tokens st1 d tokens = Inr st'"
       "built ((if trm = [] then R else insert trm R) \<union> {t \<in> set tokens. t \<noteq> []}) st'"
    by blast
  have "(if trm = [] then R else insert trm R) \<union> {t \<in> set tokens. t \<noteq> []}
        = R \<union> {t \<in> set (trm # tokens). t \<noteq> []}"
    by auto
  with 1 2 show ?case by simp
qed

lemma index_rows_built:
  "built R st \<Longrightarrow> \<exists>st'. index_rows U st rows = Inr st' \<and> built (R \<union> corpus_terms U rows) st'"
proof (induction rows arbitrary: R st)
  case Nil
  then show ?case by (simp add: corpus_terms_def)
next
  case (Cons row rows)
  let ?T = "if length row < 5 then {} else {t \<in> set (row_tokens U row). t \<noteq> []}"
  have "\<exists>st1. index_row U st row = Inr st1 \<and> built (R \<union> ?T) st1"
    using Cons.prems index_tokens_built[OF Cons.prems, of "row ! 1" "row_tokens U row"]
    by (simp add: index_row_def)
  then obtain st1 where 1: "index_row U st row = Inr st1" "built (R \<union> ?T) st1" by blast
  from Cons.IH[OF 1(2)] obtain st' where
    2: "index_rows U st1 rows = Inr st'" "built (R \<union> ?T \<union> corpus_terms U rows) st'" by blast
  have "R \<union> ?T \<union> corpus_terms U rows = R \<union> corpus_terms U (row # rows)"
    by (auto simp: corpus_terms_def)
  with 1 2 show ?case by simp
qed

lemma built_init: "built {} init"
  by (simp add: built_def index_inv_init permuterm_inv_def terms_at_def) (simp add: init_def)

lemma index_built: "\<exists>st. index_rows U init rows = Inr st \<and> built (corpus_terms U rows) st"
  using index_rows_built[OF built_init, of U rows] by simp

lemma index_tokens_a1_inv:
  "index_inv st \<Longrightarrow> \<exists>st'. index_tokens_a1 st d tokens = Inr st' \<and> index_inv st'"
proof (induction tokens arbitrary: st)
  case Nil
  then show ?case by simp
next
  case (Cons trm tokens)
  have "trm \<in> dom (dictionary (ensure_term st trm))" by (simp add: ensure_term_dom)
  from append_posting_inv[OF ensure_term_inv[OF Cons.prems] this, of d]
  obtain st1 where 1: "index_term_a1 st d trm = Inr st1" "index_inv st1"
    by (auto simp: index_term_a1_def)
  from Cons.IH[OF 1(2)] 1(1) show ?case by simp
qed

lemma index_rows_a1_inv:
  "index_inv st \<Longrightarrow> \<exists>st'. index_rows_a1 U st rows = Inr st' \<and> index_inv st'"
proof (induction rows arbitrary: st)
  case Nil
  then show ?case by simp
next
  case (Cons row rows)
  have "\<exists>st1. index_row_a1 U st row = Inr st1 \<and> index_inv st1"
    using Cons.prems index_tokens_a1_inv[OF Cons.prems, of "row ! 1" "row_tokens U row"]
    by (simp add: index_row_a1_def)
  then obtain st1 where 1: "index_row_a1 U st row = Inr st1" "index_inv st1" by blast
  from Cons.IH[OF 1(2)] 1(1) show ?case by simp
qed

section \<open>Counters and chains after the build\<close>

lemma index_inv_entry:
  assumes "index_inv st" "dictionary st trm = Some (t, n, p)"
  shows "\<exists>head. postings_lists st p = Some head \<and> n = length (chain_ids head) \<and>
           distinct_adj (chain_ids head) \<and> card (set (chain_ids head)) \<le> n"
proof -
  from assms obtain head where h: "postings_lists st p = Some head" "length (chain_ids head) = n"
    "distinct_adj (chain_ids head)"
    unfolding index_inv_def by blast
  have "card (set (chain_ids head)) \<le> length (chain_ids head)" by (rule card_length)
  with h show ?thesis by auto
qed

text \<open>
  Claim C9. Building the index from any rows succeeds, in assignment 2 and in
  assignment 1, and in the resulting state the counter of every dictionary entry is the
  number of nodes of its chain, no two adjacent nodes of the chain carry the same
  document id, and so the counter is at least the number of distinct documents of the
  chain.
\<close>

theorem index_counter_is_chain_length:
  "(\<exists>st. index_rows U init rows = Inr st \<and>
      (\<forall>trm t n p. dictionary st trm = Some (t, n, p) \<longrightarrow>
         (\<exists>head. postings_lists st p = Some head \<and> n = length (chain_ids head) \<and>
            distinct_adj (chain_ids head) \<and> card (set (chain_ids head)) \<le> n))) \<and>
   (\<exists>st. index_rows_a1 U init_a1 rows = Inr st \<and>
      (\<forall>trm t n p. dictionary st trm = Some (t, n, p) \<longrightarrow>
         (\<exists>head. postings_lists st p = Some head \<and> n = length (chain_ids head) \<and>
            distinct_adj (chain_ids head) \<and> card (set (chain_ids head)) \<le> n)))"
proof (rule conjI)
  from index_built[of U rows] obtain st where "index_rows U init rows = Inr st" "index_inv st"
    by (auto simp: built_def)
  then show "\<exists>st. index_rows U init rows = Inr st \<and>
      (\<forall>trm t n p. dictionary st trm = Some (t, n, p) \<longrightarrow>
         (\<exists>head. postings_lists st p = Some head \<and> n = length (chain_ids head) \<and>
            distinct_adj (chain_ids head) \<and> card (set (chain_ids head)) \<le> n))"
    using index_inv_entry[of st] by blast
next
  from index_rows_a1_inv[OF index_inv_init_a1, of U rows] obtain st where
    "index_rows_a1 U init_a1 rows = Inr st" "index_inv st" by blast
  then show "\<exists>st. index_rows_a1 U init_a1 rows = Inr st \<and>
      (\<forall>trm t n p. dictionary st trm = Some (t, n, p) \<longrightarrow>
         (\<exists>head. postings_lists st p = Some head \<and> n = length (chain_ids head) \<and>
            distinct_adj (chain_ids head) \<and> card (set (chain_ids head)) \<le> n))"
    using index_inv_entry[of st] by blast
qed

theorem index_counter_is_chain_length_witness:
  "\<exists>st head. index_rows latin1_tables init interleaved_rows = Inr st \<and>
     dictionary st (ustr ''a'') = Some (ustr ''a'', 3, 0) \<and> postings_lists st 0 = Some head \<and>
     chain_ids head = [ustr ''d1'', ustr ''d2'', ustr ''d1''] \<and> 3 = length (chain_ids head) \<and>
     distinct_adj (chain_ids head) \<and> card (set (chain_ids head)) \<le> 3"
proof -
  from index_counter_is_chain_length[of latin1_tables interleaved_rows] obtain st where
    st: "index_rows latin1_tables init interleaved_rows = Inr st"
    and all: "\<And>trm t n p. dictionary st trm = Some (t, n, p) \<Longrightarrow>
         (\<exists>head. postings_lists st p = Some head \<and> n = length (chain_ids head) \<and>
            distinct_adj (chain_ids head) \<and> card (set (chain_ids head)) \<le> n)"
    by blast
  have "dictionary (projr (index_rows latin1_tables init interleaved_rows)) (ustr ''a'') = Some (ustr ''a'', 3, 0)"
    by code_simp
  with st have d: "dictionary st (ustr ''a'') = Some (ustr ''a'', 3, 0)" by simp
  have "map_option chain_ids (postings_lists (projr (index_rows latin1_tables init interleaved_rows)) 0)
          = Some [ustr ''d1'', ustr ''d2'', ustr ''d1'']"
    by code_simp
  with st have c: "map_option chain_ids (postings_lists st 0) = Some [ustr ''d1'', ustr ''d2'', ustr ''d1'']" by simp
  from all[OF d] c show ?thesis using st d by auto
qed

section \<open>Queries on a well-formed index\<close>

lemma index_inv_pointer:
  assumes "index_inv st" "dictionary st trm = Some e"
  shows "\<exists>head. postings_lists st (snd (snd e)) = Some head"
proof -
  obtain t n p where e: "e = (t, n, p)" by (cases e)
  with assms show ?thesis unfolding index_inv_def by fastforce
qed

lemma term_postings_loop_ok:
  "index_inv st \<Longrightarrow> \<exists>S. term_postings_loop st terms acc = Inr S"
proof (induction terms arbitrary: acc)
  case Nil
  show ?case by simp
next
  case (Cons trm terms)
  show ?case
  proof (cases "dictionary st trm")
    case None
    with Cons show ?thesis by simp
  next
    case (Some e)
    from index_inv_pointer[OF Cons.prems Some] obtain head where
      "postings_lists st (snd (snd e)) = Some head" by blast
    with Some Cons show ?thesis by simp
  qed
qed

lemma term_postings_loop_absent:
  "\<forall>t \<in> set terms. dictionary st t = None \<Longrightarrow> term_postings_loop st terms acc = Inr acc"
  by (induction terms arbitrary: acc) simp_all

lemma gather_postings_ok:
  "index_inv st \<Longrightarrow> \<exists>r. gather_postings st groups = Inr r"
proof (induction groups)
  case Nil
  show ?case by simp
next
  case (Cons g groups)
  from term_postings_loop_ok[OF Cons.prems, of g "{}"] obtain S where
    "term_postings_loop st g {} = Inr S" by blast
  with Cons show ?case by (auto split: option.splits)
qed

lemma gather_postings_empty_group:
  assumes "index_inv st" "g \<in> set groups" "term_postings_loop st g {} = Inr {}"
  shows "gather_postings st groups = Inr None"
  using assms(2)
proof (induction groups)
  case Nil
  then show ?case by simp
next
  case (Cons h groups)
  from term_postings_loop_ok[OF assms(1), of h "{}"] obtain S where
    S: "term_postings_loop st h {} = Inr S" by blast
  show ?case
  proof (cases "S = {}")
    case True
    with S show ?thesis by simp
  next
    case False
    with S assms(3) have "h \<noteq> g" by auto
    with Cons have "gather_postings st groups = Inr None" by simp
    with S False show ?thesis by simp
  qed
qed

lemma expand_terms_literal:
  "expand_terms st nterms = Some groups \<Longrightarrow> t \<in> set nterms \<Longrightarrow> star \<notin> set t \<Longrightarrow>
   [t] \<in> set groups"
proof (induction nterms arbitrary: groups)
  case Nil
  then show ?case by simp
next
  case (Cons u nterms)
  then show ?case
    by (auto simp: Let_def split: if_splits)
qed

lemma expand_terms_no_match:
  "t \<in> set nterms \<Longrightarrow> star \<in> set t \<Longrightarrow> expand_wildcard st t = [] \<Longrightarrow>
   expand_terms st nterms = None"
  by (induction nterms) (auto simp: Let_def)

lemma query_literal_absent:
  assumes "index_inv st" "t \<in> set terms" "star \<notin> set (normalize U t True)"
    "dictionary st (normalize U t True) = None"
  shows "query U st terms = Inr []"
proof (cases "expand_terms st (map (\<lambda>trm. normalize U trm True) terms)")
  case None
  then show ?thesis by (simp add: query_def)
next
  case (Some groups)
  from assms(2) have "normalize U t True \<in> set (map (\<lambda>trm. normalize U trm True) terms)" by simp
  from expand_terms_literal[OF Some this assms(3)] have g: "[normalize U t True] \<in> set groups" .
  have "term_postings_loop st [normalize U t True] {} = Inr {}"
    using assms(4) by simp
  from gather_postings_empty_group[OF assms(1) g this] Some show ?thesis
    by (simp add: query_def)
qed

lemma query_wildcard_no_match:
  assumes "t \<in> set terms" "star \<in> set (normalize U t True)"
    "expand_wildcard st (normalize U t True) = []"
  shows "query U st terms = Inr []"
proof -
  from assms(1) have "normalize U t True \<in> set (map (\<lambda>trm. normalize U trm True) terms)" by simp
  from expand_terms_no_match[OF this assms(2,3)] show ?thesis by (simp add: query_def)
qed

lemma gather_postings_a1_missing:
  assumes "index_inv st"
  shows "\<exists>t \<in> set nterms. dictionary st t = None \<Longrightarrow>
         \<exists>t \<in> set nterms. dictionary st t = None \<and> gather_postings_a1 st nterms = Missing t"
proof (induction nterms)
  case Nil
  then show ?case by simp
next
  case (Cons u nterms)
  show ?case
  proof (cases "dictionary st u")
    case None
    then show ?thesis by simp
  next
    case (Some e)
    from index_inv_pointer[OF assms Some] obtain head where
      h: "postings_lists st (snd (snd e)) = Some head" by blast
    from Cons.prems Some have "\<exists>t \<in> set nterms. dictionary st t = None" by auto
    from Cons.IH[OF this] obtain t where "t \<in> set nterms" "dictionary st t = None"
      "gather_postings_a1 st nterms = Missing t" by blast
    with Some h show ?thesis by auto
  qed
qed

lemma normalize_alnum: "c \<in> set (normalize U t False) \<Longrightarrow> isalnum U c"
  by (auto simp: normalize_def)

lemma corpus_terms_alnum:
  "t \<in> corpus_terms U rows \<Longrightarrow> t \<noteq> [] \<and> (\<forall>c \<in> set t. isalnum U c)"
  by (auto simp: corpus_terms_def row_tokens_def dest: normalize_alnum)

lemma latin1_not_special: "\<not> isalnum latin1_tables dollar" "\<not> isalnum latin1_tables star"
  by (simp_all add: latin1_tables_def latin1_isalnum_def dollar_def star_def)

text \<open>
  Claim C2 (the code departs from it). A query with zero terms is not rejected with a
  dedicated signal: no term is normalised or looked up, the list of per-term postings
  stays empty, and \<^verbatim>\<open>postings_lists[0]\<close> raises \<^verbatim>\<open>IndexError\<close>, in assignment 2 and in
  assignment 1, whatever the state of the index.
\<close>

theorem query_no_terms:
  "query U st [] = Inl IndexError \<and> query_a1 U st1 [] = ([], Inl IndexError)"
  by (simp add: query_def query_a1_def)

text \<open>
  Claim C8, as amended. On an index built from any rows, a query that contains a literal
  term absent from the dictionary is non-fatal and returns the empty list; in assignment 2
  a term is literal when its normalised form has no star, which is the test of line 137.
  The condition is not reported as a structured outcome: assignment 2 returns the plain empty list and
  nothing else, and assignment 1 prints \<^verbatim>\<open>Term '...' not found in the index.\<close> for the
  first absent term, unconditionally, before returning the empty list.
\<close>

theorem query_missing_term:
  "(\<exists>st. index_rows U init rows = Inr st \<and>
      (\<forall>terms. (\<exists>t \<in> set terms. star \<notin> set (normalize U t True) \<and>
                   dictionary st (normalize U t True) = None)
         \<longrightarrow> query U st terms = Inr [])) \<and>
   (\<exists>st. index_rows_a1 U init_a1 rows = Inr st \<and>
      (\<forall>terms. (\<exists>t \<in> set terms. dictionary st (normalize U t False) = None)
         \<longrightarrow> (\<exists>t \<in> set terms. dictionary st (normalize U t False) = None \<and>
                query_a1 U st terms =
                  ([(ustr ''Term '') @ [39] @ normalize U t False @ [39]
                      @ (ustr '' not found in the index.'')], Inr []))))"
proof (rule conjI)
  from index_built[of U rows] obtain st where st: "index_rows U init rows = Inr st" "index_inv st"
    by (auto simp: built_def)
  have "query U st terms = Inr []"
    if "\<exists>t \<in> set terms. star \<notin> set (normalize U t True) \<and>
                   dictionary st (normalize U t True) = None" for terms
  proof -
    from that obtain t where t: "t \<in> set terms" "star \<notin> set (normalize U t True)"
      "dictionary st (normalize U t True) = None" by blast
    from query_literal_absent[OF st(2) t] show ?thesis .
  qed
  with st(1) show "\<exists>st. index_rows U init rows = Inr st \<and>
      (\<forall>terms. (\<exists>t \<in> set terms. star \<notin> set (normalize U t True) \<and>
                   dictionary st (normalize U t True) = None)
         \<longrightarrow> query U st terms = Inr [])"
    by blast
next
  from index_rows_a1_inv[OF index_inv_init_a1, of U rows] obtain st where
    st: "index_rows_a1 U init_a1 rows = Inr st" "index_inv st" by blast
  have "\<exists>t \<in> set terms. dictionary st (normalize U t False) = None \<and>
                query_a1 U st terms =
                  ([(ustr ''Term '') @ [39] @ normalize U t False @ [39]
                      @ (ustr '' not found in the index.'')], Inr [])"
    if "\<exists>t \<in> set terms. dictionary st (normalize U t False) = None" for terms
  proof -
    from that have "\<exists>u \<in> set (map (\<lambda>trm. normalize U trm False) terms). dictionary st u = None"
      by simp
    from gather_postings_a1_missing[OF st(2) this] obtain u where
      u: "u \<in> set (map (\<lambda>trm. normalize U trm False) terms)" "dictionary st u = None"
         "gather_postings_a1 st (map (\<lambda>trm. normalize U trm False) terms) = Missing u" by blast
    from u(1) obtain t where "t \<in> set terms" "u = normalize U t False" by auto
    with u show ?thesis by (auto simp: query_a1_def)
  qed
  with st(1) show "\<exists>st. index_rows_a1 U init_a1 rows = Inr st \<and>
      (\<forall>terms. (\<exists>t \<in> set terms. dictionary st (normalize U t False) = None)
         \<longrightarrow> (\<exists>t \<in> set terms. dictionary st (normalize U t False) = None \<and>
                query_a1 U st terms =
                  ([(ustr ''Term '') @ [39] @ normalize U t False @ [39]
                      @ (ustr '' not found in the index.'')], Inr [])))"
    by blast
qed

theorem query_missing_term_witness:
  "(\<exists>st. index_rows latin1_tables init example_rows = Inr st \<and> dictionary st (ustr ''zzz'') = None \<and>
      query latin1_tables st [ustr ''side'', ustr ''Zzz!''] = Inr []) \<and>
   (\<exists>st. index_rows_a1 latin1_tables init_a1 example_rows = Inr st \<and> dictionary st (ustr ''zzz'') = None \<and>
      query_a1 latin1_tables st [ustr ''side'', ustr ''Zzz!''] =
        ([(ustr ''Term '') @ [39] @ (ustr ''zzz'') @ [39] @ (ustr '' not found in the index.'')], Inr []))"
proof (rule conjI)
  from query_missing_term[of latin1_tables example_rows] obtain st where
    st: "index_rows latin1_tables init example_rows = Inr st"
    and q: "\<And>terms. \<exists>t \<in> set terms. star \<notin> set (normalize latin1_tables t True) \<and>
                   dictionary st (normalize latin1_tables t True) = None
         \<Longrightarrow> query latin1_tables st terms = Inr []"
    by blast
  have n: "normalize latin1_tables (ustr ''Zzz!'') True = (ustr ''zzz'')" by code_simp
  have "dictionary (projr (index_rows latin1_tables init example_rows)) (ustr ''zzz'') = None" by code_simp
  with st have d: "dictionary st (ustr ''zzz'') = None" by simp
  have ns: "star \<notin> set (ustr ''zzz'')" by code_simp
  have "\<exists>t \<in> set [ustr ''side'', ustr ''Zzz!'']. star \<notin> set (normalize latin1_tables t True) \<and>
          dictionary st (normalize latin1_tables t True) = None"
    using n d ns by simp
  then have "query latin1_tables st [ustr ''side'', ustr ''Zzz!''] = Inr []"
    by (rule q)
  with st d show "\<exists>st. index_rows latin1_tables init example_rows = Inr st \<and> dictionary st (ustr ''zzz'') = None \<and>
      query latin1_tables st [ustr ''side'', ustr ''Zzz!''] = Inr []" by blast
next
  from query_missing_term[of latin1_tables example_rows] obtain st where
    st: "index_rows_a1 latin1_tables init_a1 example_rows = Inr st"
    and q: "\<And>terms. \<exists>t \<in> set terms. dictionary st (normalize latin1_tables t False) = None
         \<Longrightarrow> \<exists>t \<in> set terms. dictionary st (normalize latin1_tables t False) = None \<and>
                query_a1 latin1_tables st terms =
                  ([(ustr ''Term '') @ [39] @ normalize latin1_tables t False @ [39]
                      @ (ustr '' not found in the index.'')], Inr [])"
    by blast
  have n: "normalize latin1_tables (ustr ''Zzz!'') False = (ustr ''zzz'')" "normalize latin1_tables (ustr ''side'') False = (ustr ''side'')" by code_simp+
  have "dictionary (projr (index_rows_a1 latin1_tables init_a1 example_rows)) (ustr ''zzz'') = None"
       "dictionary (projr (index_rows_a1 latin1_tables init_a1 example_rows)) (ustr ''side'') \<noteq> None" by code_simp+
  with st have d: "dictionary st (ustr ''zzz'') = None" "dictionary st (ustr ''side'') \<noteq> None" by simp_all
  have "\<exists>t \<in> set [ustr ''side'', ustr ''Zzz!'']. dictionary st (normalize latin1_tables t False) = None \<and>
                query_a1 latin1_tables st [ustr ''side'', ustr ''Zzz!''] =
                  ([(ustr ''Term '') @ [39] @ normalize latin1_tables t False @ [39]
                      @ (ustr '' not found in the index.'')], Inr [])"
    by (rule q) (simp add: n d)
  then have "query_a1 latin1_tables st [ustr ''side'', ustr ''Zzz!''] =
        ([(ustr ''Term '') @ [39] @ (ustr ''zzz'') @ [39] @ (ustr '' not found in the index.'')], Inr [])"
    using n d by auto
  with st d show "\<exists>st. index_rows_a1 latin1_tables init_a1 example_rows = Inr st \<and> dictionary st (ustr ''zzz'') = None \<and>
      query_a1 latin1_tables st [ustr ''side'', ustr ''Zzz!''] =
        ([(ustr ''Term '') @ [39] @ (ustr ''zzz'') @ [39] @ (ustr '' not found in the index.'')], Inr [])"
    by blast
qed

text \<open>
  Claim C8 as stated fails: for an absent term, assignment 2 returns the same value as for
  an empty intersection of terms that are present (\<^verbatim>\<open>side\<close> is in d1 and d2, \<^verbatim>\<open>no\<close> in
  d3), and assignment 1 writes the message to the console.
\<close>

theorem term_not_found_unreported:
  "query latin1_tables (projr (index_rows latin1_tables init example_rows)) [ustr ''side'', ustr ''zzz''] = Inr [] \<and>
   query latin1_tables (projr (index_rows latin1_tables init example_rows)) [ustr ''side'', ustr ''no''] = Inr [] \<and>
   dictionary (projr (index_rows latin1_tables init example_rows)) (ustr ''zzz'') = None \<and>
   dictionary (projr (index_rows latin1_tables init example_rows)) (ustr ''no'') = Some (ustr ''no'', 1, 3) \<and>
   fst (query_a1 latin1_tables (projr (index_rows_a1 latin1_tables init_a1 example_rows)) [ustr ''side'', ustr ''zzz'']) =
     [(ustr ''Term '') @ [39] @ (ustr ''zzz'') @ [39] @ (ustr '' not found in the index.'')]"
  by code_simp

text \<open>
  Claim C10. On an index built by assignment 2 from any rows, the empty string is not in
  the dictionary (empty tokens are skipped), and every query containing a token that
  normalises to the empty string returns the empty list.
\<close>

theorem query_empty_token:
  "\<exists>st. index_rows U init rows = Inr st \<and> dictionary st [] = None \<and>
     (\<forall>terms. (\<exists>t \<in> set terms. normalize U t True = []) \<longrightarrow> query U st terms = Inr [])"
proof -
  from index_built[of U rows] obtain st where st: "index_rows U init rows = Inr st" "index_inv st"
    "dom (dictionary st) = corpus_terms U rows"
    by (auto simp: built_def)
  have "[] \<notin> corpus_terms U rows" using corpus_terms_alnum[of "[]" U rows] by auto
  with st(3) have d: "dictionary st [] = None" by auto
  have "query U st terms = Inr []" if "\<exists>t \<in> set terms. normalize U t True = []" for terms
  proof -
    from that obtain t where t: "t \<in> set terms" "normalize U t True = []" by blast
    from query_literal_absent[OF st(2) t(1)] t(2) d show ?thesis by simp
  qed
  with st(1) d show ?thesis by blast
qed

theorem query_empty_token_witness:
  "\<exists>st. index_rows latin1_tables init example_rows = Inr st \<and> normalize latin1_tables (ustr ''?!'') True = [] \<and>
     query latin1_tables st [ustr ''side'', ustr ''?!''] = Inr []"
proof -
  from query_empty_token[of latin1_tables example_rows] obtain st where
    st: "index_rows latin1_tables init example_rows = Inr st"
    and q: "\<And>terms. \<exists>t \<in> set terms. normalize latin1_tables t True = [] \<Longrightarrow> query latin1_tables st terms = Inr []"
    by blast
  have n: "normalize latin1_tables (ustr ''?!'') True = []" by code_simp
  have "query latin1_tables st [ustr ''side'', ustr ''?!''] = Inr []" by (rule q) (simp add: n)
  with st n show ?thesis by blast
qed

section \<open>Wildcard expansion through the permuterm index\<close>

lemma star_neq_dollar [simp]: "star \<noteq> dollar" "dollar \<noteq> star"
  by (simp_all add: star_def dollar_def)

lemma py_find_first:
  "c \<notin> set A \<Longrightarrow> py_find c (A @ c # B) = Some (length A)"
  by (induction A) auto

lemma py_find_None: "py_find c s = None \<longleftrightarrow> c \<notin> set s"
  by (induction s) auto

lemma rstrip_keep: "c \<notin> set A \<Longrightarrow> y \<noteq> c \<Longrightarrow> rstrip c (xs @ y # A @ [c]) = xs @ y # A"
proof (induction A rule: rev_induct)
  case Nil
  then show ?case by (simp add: rstrip_def)
next
  case (snoc a A)
  then have "a \<noteq> c" by auto
  then show ?case by (simp add: rstrip_def)
qed

lemma search_prefix_first_star:
  assumes "star \<notin> set A"
  shows "search_prefix (A @ star # B) (length A) = B @ dollar # A"
proof -
  have "rstrip star (B @ dollar # A @ [star]) = B @ dollar # A"
    using assms by (intro rstrip_keep) simp_all
  then show ?thesis by (simp add: search_prefix_def)
qed

lemma expand_fold_set:
  "set (fold (\<lambda>(permuterm, ts) matching_terms.
                if prefix s permuterm then List.union matching_terms ts else matching_terms)
          pidx acc)
   = set acc \<union> \<Union> {set ts | k ts. (k, ts) \<in> set pidx \<and> prefix s k}"
proof (induction pidx arbitrary: acc)
  case Nil
  show ?case by simp
next
  case (Cons e pidx)
  obtain k ts where e: "e = (k, ts)" by (cases e)
  show ?case unfolding e by (simp add: Cons.IH) blast
qed

lemma expand_wildcard_set:
  assumes "py_find star trm = Some i"
  shows "set (expand_wildcard st trm)
         = \<Union> {set ts | k ts. (k, ts) \<in> set (permuterm_index st) \<and> prefix (search_prefix trm i) k}"
  using assms by (simp add: expand_wildcard_def expand_fold_set)

lemma permuterm_inv_union:
  assumes "permuterm_inv R pidx"
  shows "\<Union> {set ts | k ts. (k, ts) \<in> set pidx \<and> prefix s k}
         = {t \<in> R. \<exists>k \<in> set (generate_permuterms t). prefix s k}"
proof -
  from assms have d: "distinct (map fst pidx)"
    and ta: "\<And>k. terms_at pidx k = {t \<in> R. k \<in> set (generate_permuterms t)}"
    by (auto simp: permuterm_inv_def)
  have mem: "(k, ts) \<in> set pidx \<longleftrightarrow> map_of pidx k = Some ts" for k ts
    using d by simp
  show ?thesis
  proof (intro set_eqI iffI)
    fix t assume "t \<in> \<Union> {set ts | k ts. (k, ts) \<in> set pidx \<and> prefix s k}"
    then obtain k ts where kt: "(k, ts) \<in> set pidx" "prefix s k" "t \<in> set ts" by blast
    then have "t \<in> terms_at pidx k" by (simp add: terms_at_def mem)
    with ta[of k] kt(2) show "t \<in> {t \<in> R. \<exists>k \<in> set (generate_permuterms t). prefix s k}" by auto
  next
    fix t assume "t \<in> {t \<in> R. \<exists>k \<in> set (generate_permuterms t). prefix s k}"
    then obtain k where k: "t \<in> R" "k \<in> set (generate_permuterms t)" "prefix s k" by blast
    with ta[of k] have "t \<in> terms_at pidx k" by simp
    then obtain ts where "map_of pidx k = Some ts" "t \<in> set ts"
      by (auto simp: terms_at_def split: option.splits)
    with k(3) show "t \<in> \<Union> {set ts | k ts. (k, ts) \<in> set pidx \<and> prefix s k}"
      using mem by blast
  qed
qed

lemma rotation_prefix_iff:
  assumes "dollar \<notin> set t"
  shows "(\<exists>k \<in> set (generate_permuterms t). prefix (B @ dollar # A) k)
         \<longleftrightarrow> prefix A t \<and> suffix B t \<and> length A + length B \<le> length t"
proof
  assume "\<exists>k \<in> set (generate_permuterms t). prefix (B @ dollar # A) k"
  then obtain i r where i: "i < Suc (length t)"
    and eq: "drop i t @ dollar # take i t = (B @ dollar # A) @ r"
    by (auto simp: generate_permuterms_alt prefix_def simp del: upt_Suc)
  have nd: "dollar \<notin> set (drop i t)" "dollar \<notin> set (take i t)"
    using assms by (auto dest: in_set_dropD in_set_takeD)
  have nb: "dollar \<notin> set B"
  proof
    assume "dollar \<in> set B"
    then obtain B1 B2 where B: "B = B1 @ dollar # B2" "dollar \<notin> set B1"
      by (auto dest: split_list_first)
    with eq have "drop i t @ dollar # take i t = B1 @ dollar # (B2 @ dollar # A @ r)"
      by simp
    from append_sep_unique[OF nd(1) B(2) this] have "take i t = B2 @ dollar # A @ r" by simp
    with nd(2) show False by simp
  qed
  from eq have "drop i t @ dollar # take i t = B @ dollar # (A @ r)" by simp
  from append_sep_unique[OF nd(1) nb this] have 1: "drop i t = B" "take i t = A @ r" by simp_all
  have t: "t = (A @ r) @ B" using append_take_drop_id[of i t] 1 by simp
  then show "prefix A t \<and> suffix B t \<and> length A + length B \<le> length t"
    by (auto simp: prefix_def suffix_def)
next
  assume a: "prefix A t \<and> suffix B t \<and> length A + length B \<le> length t"
  then obtain u where u: "t = u @ B" by (auto simp: suffix_def)
  with a have "length A \<le> length u" by simp
  with a u have "prefix A u" by (auto simp: prefix_def append_eq_append_conv2 dest!: sym[of "_ @ _" "_ @ _"])
  then obtain r where r: "u = A @ r" by (auto simp: prefix_def)
  have "length u \<in> set [0..<Suc (length t)]" using u by simp
  then have "drop (length u) t @ dollar # take (length u) t \<in> set (generate_permuterms t)"
    unfolding generate_permuterms_alt set_map by (rule imageI)
  moreover have "prefix (B @ dollar # A) (drop (length u) t @ dollar # take (length u) t)"
    using u r by simp
  ultimately show "\<exists>k \<in> set (generate_permuterms t). prefix (B @ dollar # A) k" by blast
qed

lemma rotation_chars:
  "k \<in> set (generate_permuterms t) \<Longrightarrow> set k = insert dollar (set t)"
proof -
  assume "k \<in> set (generate_permuterms t)"
  then obtain i where "k = drop i t @ dollar # take i t"
    by (auto simp: generate_permuterms_alt simp del: upt_Suc)
  moreover have "set (drop i t) \<union> set (take i t) = set t"
    using append_take_drop_id[of i t] by (metis set_append sup_commute)
  ultimately show ?thesis by auto
qed

lemma built_expand_wildcard:
  assumes "built R st" "py_find star trm = Some i"
  shows "set (expand_wildcard st trm)
         = {t \<in> R. \<exists>k \<in> set (generate_permuterms t). prefix (search_prefix trm i) k}"
  using assms by (simp add: expand_wildcard_set built_def permuterm_inv_union)

lemma corpus_terms_plain:
  assumes "t \<in> corpus_terms U rows" "\<not> isalnum U c"
  shows "c \<notin> set t"
  using corpus_terms_alnum[OF assms(1)] assms(2) by blast

text \<open>
  Claim C3. Python's \<^verbatim>\<open>isalnum\<close> rejects the sentinel \<^verbatim>\<open>$\<close>. Then, for a pattern \<open>A*B\<close>
  with exactly one star, on an index built from any rows, \<^verbatim>\<open>expand_wildcard\<close> returns
  exactly the registered terms that start with \<open>A\<close>, end with \<open>B\<close> and have length at least
  \<open>len(A) + len(B)\<close>; equivalently, the union of the term sets of every rotation key that
  starts with the prefix obtained by rotating the pattern plus \<^verbatim>\<open>$\<close> so that the text after
  the star leads and stripping the trailing star, which is \<open>B$A\<close>. In particular
  \<^verbatim>\<open>*ffect\<close> matches \<^verbatim>\<open>effect\<close> and not \<^verbatim>\<open>effects\<close>.
\<close>

theorem expand_wildcard_single_star:
  assumes "\<not> isalnum U dollar" and "star \<notin> set A" and "star \<notin> set B"
  shows "\<exists>st. index_rows U init rows = Inr st \<and>
           set (expand_wildcard st (A @ [star] @ B))
             = {t \<in> corpus_terms U rows.
                  prefix A t \<and> suffix B t \<and> length A + length B \<le> length t} \<and>
           set (expand_wildcard st (A @ [star] @ B))
             = \<Union> {set ts | k ts. (k, ts) \<in> set (permuterm_index st) \<and>
                     prefix (rstrip star (B @ [dollar] @ A @ [star])) k} \<and>
           rstrip star (B @ [dollar] @ A @ [star]) = B @ [dollar] @ A"
proof -
  from index_built[of U rows] obtain st where st: "index_rows U init rows = Inr st"
    "built (corpus_terms U rows) st" by blast
  have f: "py_find star (A @ [star] @ B) = Some (length A)"
    using py_find_first[OF assms(2), of B] by simp
  have sp: "search_prefix (A @ [star] @ B) (length A) = B @ dollar # A"
    using search_prefix_first_star[OF assms(2), of B] by simp
  have rs: "rstrip star (B @ [dollar] @ A @ [star]) = B @ [dollar] @ A"
    using rstrip_keep[OF assms(2), of dollar B] by simp
  have nd: "dollar \<notin> set t" if "t \<in> corpus_terms U rows" for t
    using corpus_terms_plain[OF that assms(1)] .
  have 1: "set (expand_wildcard st (A @ [star] @ B))
             = {t \<in> corpus_terms U rows.
                  prefix A t \<and> suffix B t \<and> length A + length B \<le> length t}"
    unfolding built_expand_wildcard[OF st(2) f] sp
    using rotation_prefix_iff[of _ B A] nd by blast
  have 2: "set (expand_wildcard st (A @ [star] @ B))
             = \<Union> {set ts | k ts. (k, ts) \<in> set (permuterm_index st) \<and>
                     prefix (rstrip star (B @ [dollar] @ A @ [star])) k}"
    unfolding expand_wildcard_set[OF f] sp rs by simp
  from st(1) 1 2 rs show ?thesis by blast
qed

theorem expand_wildcard_single_star_witness:
  "\<exists>st. index_rows latin1_tables init example_rows = Inr st \<and>
     ustr ''effect'' \<in> set (expand_wildcard st (ustr ''*ffect'')) \<and>
     ustr ''effects'' \<notin> set (expand_wildcard st (ustr ''*ffect'')) \<and>
     ustr ''effects'' \<in> corpus_terms latin1_tables example_rows"
proof -
  have a: "star \<notin> set []" "star \<notin> set (ustr ''ffect'')" by code_simp+
  have p: "[] @ [star] @ ustr ''ffect'' = ustr ''*ffect''" by code_simp
  from expand_wildcard_single_star[OF latin1_not_special(1) a, of example_rows] obtain st where
    st: "index_rows latin1_tables init example_rows = Inr st"
    and e: "set (expand_wildcard st ([] @ [star] @ ustr ''ffect''))
             = {t \<in> corpus_terms latin1_tables example_rows.
                  prefix [] t \<and> suffix (ustr ''ffect'') t \<and>
                  length ([] :: pystr) + length (ustr ''ffect'') \<le> length t}"
    by (elim exE conjE) (rule that)
  have c: "ustr ''effect'' \<in> corpus_terms latin1_tables example_rows"
          "ustr ''effects'' \<in> corpus_terms latin1_tables example_rows"
    by code_simp+
  have s: "suffix (ustr ''ffect'') (ustr ''effect'')" "\<not> suffix (ustr ''ffect'') (ustr ''effects'')"
          "length (ustr ''ffect'') \<le> length (ustr ''effect'')"
    by code_simp+
  from st e c s show ?thesis unfolding p by auto
qed

lemma two_stars_split:
  assumes "2 \<le> count_list trm c"
  shows "\<exists>A B. trm = A @ c # B \<and> c \<notin> set A \<and> c \<in> set B"
proof -
  from assms have "c \<in> set trm" by (metis count_list_0_iff not_numeral_le_zero)
  then obtain A B where s: "trm = A @ c # B" "c \<notin> set A" by (auto dest: split_list_first)
  with assms have "1 \<le> count_list B c" by (simp add: count_list_0_iff)
  then have "c \<in> set B" by (metis count_list_0_iff not_one_le_zero)
  with s show ?thesis by blast
qed

text \<open>
  With two or more stars the rotation is taken at the first star and only trailing stars
  are stripped, so the search prefix keeps a star. When \<^verbatim>\<open>isalnum\<close> rejects the star, as
  Python's does, no rotation key of a built index contains one, and the expansion is
  empty for every such pattern.
\<close>

lemma built_expand_multi_star:
  assumes "built (corpus_terms U rows) st" "\<not> isalnum U star" "2 \<le> count_list trm star"
  shows "expand_wildcard st trm = []"
proof -
  from two_stars_split[OF assms(3)] obtain A B where
    s: "trm = A @ star # B" "star \<notin> set A" "star \<in> set B" by blast
  have f: "py_find star trm = Some (length A)" unfolding s(1) by (rule py_find_first[OF s(2)])
  have sp: "search_prefix trm (length A) = B @ dollar # A"
    unfolding s(1) by (rule search_prefix_first_star[OF s(2)])
  have "\<not> prefix (B @ dollar # A) k"
    if "t \<in> corpus_terms U rows" "k \<in> set (generate_permuterms t)" for t k
  proof
    assume "prefix (B @ dollar # A) k"
    then have "set B \<subseteq> set k" by (auto simp: prefix_def)
    with s(3) rotation_chars[OF that(2)] have "star \<in> set t" by auto
    with corpus_terms_plain[OF that(1) assms(2)] show False by simp
  qed
  then have "set (expand_wildcard st trm) = {}"
    unfolding built_expand_wildcard[OF assms(1) f] sp by blast
  then show ?thesis by simp
qed

text \<open>
  Claim C1 (the code departs from it). A term with two or more stars is not rejected.
  For \<^verbatim>\<open>*ffect*\<close> the code takes the first star (index 0) and searches for the prefix
  \<^verbatim>\<open>ffect*$\<close>, which keeps the second star; the expansion is empty and the query
  \<^verbatim>\<open>*ffect*\<close>, \<^verbatim>\<open>side\<close> returns the plain empty list, although \<^verbatim>\<open>effect\<close> and \<^verbatim>\<open>effects\<close>
  are indexed and the one-star queries \<^verbatim>\<open>*ffect\<close>, \<^verbatim>\<open>side\<close> and \<^verbatim>\<open>effect*\<close>, \<^verbatim>\<open>side\<close>
  find documents.
\<close>

theorem multi_star_not_rejected:
  "py_find star (ustr ''*ffect*'') = Some 0 \<and>
   search_prefix (ustr ''*ffect*'') 0 = ustr ''ffect*$'' \<and>
   expand_wildcard (projr (index_rows latin1_tables init example_rows)) (ustr ''*ffect*'') = [] \<and>
   query latin1_tables (projr (index_rows latin1_tables init example_rows))
     [ustr ''*ffect*'', ustr ''side''] = Inr [] \<and>
   query latin1_tables (projr (index_rows latin1_tables init example_rows))
     [ustr ''*ffect'', ustr ''side''] = Inr [ustr ''d2''] \<and>
   query latin1_tables (projr (index_rows latin1_tables init example_rows))
     [ustr ''effect*'', ustr ''side''] = Inr [ustr ''d1'', ustr ''d2'']"
  by code_simp

section \<open>Text outside ASCII\<close>

text \<open>
  With the tables of Python on the code points below 256, accented letters are kept and
  lowered, and U+0085 and U+00A0 separate tokens: the first row registers the term
  \<^verbatim>\<open>caf\<close> plus U+00E9 and not \<^verbatim>\<open>caf\<close>, the second the terms \<^verbatim>\<open>c\<close>, \<^verbatim>\<open>d\<close>, \<^verbatim>\<open>e\<close>,
  \<^verbatim>\<open>f\<close>, the third the term U+00E9.
\<close>

lemma accent_rows_queries:
  "row_tokens latin1_tables (accent_rows ! 0) = [ustr ''caf'' @ [233]] \<and>
   row_tokens latin1_tables (accent_rows ! 1) = [ustr ''c'', ustr ''d'', ustr ''e'', ustr ''f''] \<and>
   query latin1_tables (projr (index_rows latin1_tables init accent_rows)) [ustr ''caf'']
     = Inr [] \<and>
   query latin1_tables (projr (index_rows latin1_tables init accent_rows)) [ustr ''caf*'']
     = Inr [ustr ''d1''] \<and>
   set (expand_wildcard (projr (index_rows latin1_tables init accent_rows)) (ustr ''caf*''))
     = {ustr ''caf'' @ [233]} \<and>
   query latin1_tables (projr (index_rows latin1_tables init accent_rows)) [ustr ''c'', ustr ''f'']
     = Inr [ustr ''d2''] \<and>
   normalize latin1_tables [233] True = [233] \<and>
   query latin1_tables (projr (index_rows latin1_tables init accent_rows)) [[233]]
     = Inr [ustr ''d3'']"
  by code_simp

end
